theory Spec2Isabelle
  imports Main "HOL-Library.Char_ord" "HOL-Library.List_Lexorder"
begin

section \<open>The node store\<close>

text \<open>
  The package \<^verbatim>\<open>jsonquery\<close> (file \<^verbatim>\<open>node.go\<close>) turns a decoded JSON value into a
  doubly linked tree of \<^verbatim>\<open>Node\<close> structures. The nodes are heap objects that are
  mutated through pointers while the tree is built, so the embedding keeps an explicit
  store: the list of all nodes allocated so far. A \<^verbatim>\<open>*Node\<close> that is not nil is the
  index of its node in the store, a pointer field is a \<open>ref option\<close> with \<open>None\<close> for
  nil, and \<^verbatim>\<open>&Node{...}\<close> appends a node to the store.

  The field \<^verbatim>\<open>level\<close> is a Go \<^verbatim>\<open>int\<close>. It counts the nesting depth of the value
  being walked, which is bounded by the size of the input, so it is modelled by an
  unbounded integer.
\<close>

type_synonym ref = nat

datatype NodeType = DocumentNode | ElementNode | TextNode

record Node =
  Parent :: "ref option"
  PrevSibling :: "ref option"
  NextSibling :: "ref option"
  FirstChild :: "ref option"
  LastChild :: "ref option"
  Type :: NodeType
  Data :: string
  level :: int

type_synonym store = "Node list"

text \<open>
  The composite literal \<^verbatim>\<open>Node{Data: d, Type: ty, level: lvl}\<close>, whose pointer fields
  are nil, and its allocation \<^verbatim>\<open>&Node{...}\<close>: the result is the new pointer and the
  extended store.
\<close>

definition make_Node :: "NodeType \<Rightarrow> string \<Rightarrow> int \<Rightarrow> Node" where
  "make_Node ty d lvl =
     \<lparr>Parent = None, PrevSibling = None, NextSibling = None, FirstChild = None,
      LastChild = None, Type = ty, Data = d, level = lvl\<rparr>"

definition new_Node :: "NodeType \<Rightarrow> string \<Rightarrow> int \<Rightarrow> store \<Rightarrow> ref \<times> store" where
  "new_Node ty d lvl s = (length s, s @ [make_Node ty d lvl])"

section \<open>The decoded JSON value\<close>

text \<open>
  \<^verbatim>\<open>json.Unmarshal\<close> into an \<^verbatim>\<open>interface{}\<close> yields nil, a bool, a float64, a string,
  a \<^verbatim>\<open>[]interface{}\<close> or a \<^verbatim>\<open>map[string]interface{}\<close>. The type \<open>'f\<close> stands for
  float64: the package never inspects a number, it only hands it to
  \<^verbatim>\<open>strconv.FormatFloat\<close>. A Go map is given as the list of its entries in the order
  in which \<^verbatim>\<open>range\<close> happens to enumerate them in this run; the keys of a map are
  pairwise distinct (\<open>wf_json\<close>).
\<close>

datatype 'f json =
    JNull
  | JBool bool
  | JNumber 'f
  | JString string
  | JArray "'f json list"
  | JObject "(string \<times> 'f json) list"

fun wf_json :: "'f json \<Rightarrow> bool" where
  "wf_json (JArray vs) = list_all wf_json vs"
| "wf_json (JObject kvs) = (distinct (map fst kvs) \<and> list_all (\<lambda>kv. wf_json (snd kv)) kvs)"
| "wf_json _ = True"

text \<open>\<^verbatim>\<open>v[key]\<close>: the zero value (nil) when the key is absent.\<close>

definition index_map :: "(string \<times> 'f json) list \<Rightarrow> string \<Rightarrow> 'f json" where
  "index_map kvs key = (case map_of kvs key of None \<Rightarrow> JNull | Some v \<Rightarrow> v)"

text \<open>
  Modelled from the spec: \<^verbatim>\<open>strconv.FormatBool\<close> of the Go standard library
  (``Boolean rendering: literal true/false'').
\<close>

definition FormatBool :: "bool \<Rightarrow> string" where
  "FormatBool b = (if b then ''true'' else ''false'')"

section \<open>Building the tree\<close>

text \<open>
  The closure \<^verbatim>\<open>addNode\<close> of \<^verbatim>\<open>parseValue\<close>, with the captured \<^verbatim>\<open>top\<close> as its
  first argument. Each assignment of the source is one update of the store, in the
  source's order. \<^verbatim>\<open>t.NextSibling = n\<close> dereferences \<^verbatim>\<open>top.LastChild\<close>: when that
  is nil the Go runtime panics, which is the result \<open>None\<close>.
\<close>

definition addNode :: "ref \<Rightarrow> ref \<Rightarrow> store \<Rightarrow> store option" where
  "addNode top' n s =
     (if level (s ! n) = level (s ! top') then
        (let s = s[top' := (s ! top')\<lparr>NextSibling := Some n\<rparr>];
             s = s[n := (s ! n)\<lparr>PrevSibling := Some top'\<rparr>];
             s = s[n := (s ! n)\<lparr>Parent := Parent (s ! top')\<rparr>]
         in case Parent (s ! top') of
              None \<Rightarrow> Some s
            | Some p \<Rightarrow> Some (s[p := (s ! p)\<lparr>LastChild := Some n\<rparr>]))
      else if level (s ! n) > level (s ! top') then
        (let s = s[n := (s ! n)\<lparr>Parent := Some top'\<rparr>]
         in case FirstChild (s ! top') of
              None \<Rightarrow>
                (let s = s[top' := (s ! top')\<lparr>FirstChild := Some n\<rparr>]
                 in Some (s[top' := (s ! top')\<lparr>LastChild := Some n\<rparr>]))
            | Some _ \<Rightarrow>
                (case LastChild (s ! top') of
                   None \<Rightarrow> None
                 | Some t \<Rightarrow>
                     (let s = s[t := (s ! t)\<lparr>NextSibling := Some n\<rparr>];
                          s = s[n := (s ! n)\<lparr>PrevSibling := Some t\<rparr>]
                      in Some (s[top' := (s ! top')\<lparr>LastChild := Some n\<rparr>]))))
      else Some s)"

text \<open>
  \<^verbatim>\<open>parseValue(x, top, level)\<close>. The type switch is the case distinction on the
  value; nil matches no case. \<open>parseArray\<close> is the loop over the elements of a slice
  and \<open>parseObject\<close> the loop over the sorted keys of a map. The first argument is
  \<^verbatim>\<open>strconv.FormatFloat(v, 'f', -1, 64)\<close>, a function of the Go standard library that
  is a parameter of the model.
\<close>

function parseValue :: "('f \<Rightarrow> string) \<Rightarrow> 'f json \<Rightarrow> ref \<Rightarrow> int \<Rightarrow> store \<Rightarrow> store option"
  and parseArray :: "('f \<Rightarrow> string) \<Rightarrow> 'f json list \<Rightarrow> ref \<Rightarrow> int \<Rightarrow> store \<Rightarrow> store option"
  and parseObject ::
    "('f \<Rightarrow> string) \<Rightarrow> (string \<times> 'f json) list \<Rightarrow> string list \<Rightarrow> ref \<Rightarrow> int \<Rightarrow> store
       \<Rightarrow> store option"
where
  "parseValue fmt (JArray v) top' lvl s = parseArray fmt v top' lvl s"
| "parseValue fmt (JObject v) top' lvl s = parseObject fmt v (sort (map fst v)) top' lvl s"
| "parseValue fmt (JString v) top' lvl s =
     (let (n, s) = new_Node TextNode v lvl s in addNode top' n s)"
| "parseValue fmt (JNumber v) top' lvl s =
     (let (n, s) = new_Node TextNode (fmt v) lvl s in addNode top' n s)"
| "parseValue fmt (JBool v) top' lvl s =
     (let (n, s) = new_Node TextNode (FormatBool v) lvl s in addNode top' n s)"
| "parseValue fmt JNull top' lvl s = Some s"
| "parseArray fmt [] top' lvl s = Some s"
| "parseArray fmt (vv # vs) top' lvl s =
     (let (n, s) = new_Node ElementNode [] lvl s in
      case addNode top' n s of
        None \<Rightarrow> None
      | Some s \<Rightarrow>
          (case parseValue fmt vv n (lvl + 1) s of
             None \<Rightarrow> None
           | Some s \<Rightarrow> parseArray fmt vs top' lvl s))"
| "parseObject fmt v [] top' lvl s = Some s"
| "parseObject fmt v (key # keys) top' lvl s =
     (let (n, s) = new_Node ElementNode key lvl s in
      case addNode top' n s of
        None \<Rightarrow> None
      | Some s \<Rightarrow>
          (case parseValue fmt (index_map v key) n (lvl + 1) s of
             None \<Rightarrow> None
           | Some s \<Rightarrow> parseObject fmt v keys top' lvl s))"
  by pat_completeness auto
termination
proof -
  have est: "size (index_map v key) < size_list (size_prod (\<lambda>_. 0) size) v + 1
      \<or> index_map v key = JNull"
    for v :: "(string \<times> 'f json) list" and key
  proof (cases "map_of v key")
    case None
    then show ?thesis by (simp add: index_map_def)
  next
    case (Some w)
    then have "(key, w) \<in> set v" by (rule map_of_SomeD)
    then have "size_prod (\<lambda>_. 0) size (key, w) \<le> size_list (size_prod (\<lambda>_. 0) size) v"
      by (simp add: size_list_estimation')
    with Some show ?thesis by (simp add: index_map_def)
  qed
  show ?thesis
  proof (relation "inv_image (less_than <*lex*> less_than)
    (\<lambda>x. case x of
       Inl (fmt, v, top', lvl, s) \<Rightarrow>
         (size v, case v of JObject kvs \<Rightarrow> length kvs + 2 | _ \<Rightarrow> 0)
     | Inr (Inl (fmt, vs, top', lvl, s)) \<Rightarrow> (size_list size vs, 0)
     | Inr (Inr (fmt, kvs, keys, top', lvl, s)) \<Rightarrow>
         (size_list (size_prod (\<lambda>_. 0) size) kvs + 1, Suc (length keys)))",
    goal_cases)
    case 1
    show ?case
      by (intro wf_inv_image wf_lex_prod wf_less_than)
  next
    case (6 fmt v key keys top' lvl s x xa y x2)
    show ?case
      using est [of v key] by auto
  qed auto
qed

text \<open>
  \<^verbatim>\<open>parse(b)\<close> and \<^verbatim>\<open>Parse(r)\<close>. \<^verbatim>\<open>json.Unmarshal\<close> and \<^verbatim>\<open>ioutil.ReadAll\<close> belong to
  the Go standard library and are parameters: \<open>Unmarshal b\<close> is the error or the decoded
  value, \<open>ReadAll r\<close> the bytes read and the error, if any. The result is the store, the
  returned \<^verbatim>\<open>*Node\<close> and the returned \<^verbatim>\<open>error\<close>; \<open>None\<close> is a panic. The document
  node is the first node a call allocates, and its \<^verbatim>\<open>level\<close> is the zero value.
\<close>

definition parse ::
  "('f \<Rightarrow> string) \<Rightarrow> ('b \<Rightarrow> 'e + 'f json) \<Rightarrow> 'b \<Rightarrow> (store \<times> ref option \<times> 'e option) option"
where
  "parse fmt Unmarshal b =
     (case Unmarshal b of
        Inl err \<Rightarrow> Some ([], None, Some err)
      | Inr v \<Rightarrow>
          (let (doc, s) = new_Node DocumentNode [] 0 [] in
           case parseValue fmt v doc 1 s of
             None \<Rightarrow> None
           | Some s \<Rightarrow> Some (s, Some doc, None)))"

definition Parse ::
  "('f \<Rightarrow> string) \<Rightarrow> ('r \<Rightarrow> 'b \<times> 'e option) \<Rightarrow> ('b \<Rightarrow> 'e + 'f json) \<Rightarrow> 'r
     \<Rightarrow> (store \<times> ref option \<times> 'e option) option"
where
  "Parse fmt ReadAll Unmarshal r =
     (case ReadAll r of
        (b, Some err) \<Rightarrow> Some ([], None, Some err)
      | (b, None) \<Rightarrow> parse fmt Unmarshal b)"

section \<open>Reading the tree\<close>

text \<open>
  The loops below follow pointers of the store and need not terminate on a store that
  holds a cycle, so they are defined as partial functions: \<open>None\<close> is a walk that does
  not return.

  \<^verbatim>\<open>ChildNodes\<close>: the loop with its accumulator \<^verbatim>\<open>a\<close> and its cursor \<^verbatim>\<open>nn\<close>.
\<close>

partial_function (option) ChildNodes_loop :: "store \<Rightarrow> ref list \<Rightarrow> ref option \<Rightarrow> ref list option"
where
  "ChildNodes_loop s a nn =
     (case nn of
        None \<Rightarrow> Some a
      | Some r \<Rightarrow> ChildNodes_loop s (a @ [r]) (NextSibling (s ! r)))"

definition ChildNodes :: "store \<Rightarrow> ref \<Rightarrow> ref list option" where
  "ChildNodes s n = ChildNodes_loop s [] (FirstChild (s ! n))"

text \<open>
  \<^verbatim>\<open>InnerText\<close> and \<^verbatim>\<open>outputXML\<close> are recursive functions whose body holds a loop over
  the children. The two control points of such a function are the two constructors of
  \<open>walk\<close>: \<open>Visit n\<close> is a call on the node \<open>n\<close>, and \<open>Siblings child\<close> is the loop
  \<^verbatim>\<open>for child != nil\<close> standing at \<open>child\<close>. The buffer is passed through.
\<close>

datatype walk = Visit ref | Siblings "ref option"

partial_function (option) output_walk :: "store \<Rightarrow> walk \<Rightarrow> string \<Rightarrow> string option" where
  "output_walk s w buf =
     (case w of
        Visit n \<Rightarrow>
          (if Type (s ! n) = TextNode then Some (buf @ Data (s ! n))
           else output_walk s (Siblings (FirstChild (s ! n))) buf)
      | Siblings None \<Rightarrow> Some buf
      | Siblings (Some child) \<Rightarrow>
          Option.bind (output_walk s (Visit child) buf)
            (\<lambda>buf. output_walk s (Siblings (NextSibling (s ! child))) buf))"

definition InnerText :: "store \<Rightarrow> ref \<Rightarrow> string option" where
  "InnerText s n = output_walk s (Visit n) []"

text \<open>
  \<^verbatim>\<open>outputXML\<close>. The switch writes the opening tag of an element and returns early on
  a text node; a document node falls through the switch. The closing tag is chosen by
  \<^verbatim>\<open>n.Data\<close> alone.
\<close>

partial_function (option) outputXML_walk :: "store \<Rightarrow> walk \<Rightarrow> string \<Rightarrow> string option" where
  "outputXML_walk s w buf =
     (case w of
        Visit n \<Rightarrow>
          (case Type (s ! n) of
             TextNode \<Rightarrow> Some (buf @ Data (s ! n))
           | ty \<Rightarrow>
               Option.bind
                 (outputXML_walk s (Siblings (FirstChild (s ! n)))
                    (if ty = ElementNode
                     then (if Data (s ! n) = [] then buf @ ''<element>''
                           else buf @ ''<'' @ Data (s ! n) @ ''>'')
                     else buf))
                 (\<lambda>buf. if Data (s ! n) = [] then Some (buf @ ''</element>'')
                        else Some (buf @ ''</'' @ Data (s ! n) @ ''>'')))
      | Siblings None \<Rightarrow> Some buf
      | Siblings (Some child) \<Rightarrow>
          Option.bind (outputXML_walk s (Visit child) buf)
            (\<lambda>buf. outputXML_walk s (Siblings (NextSibling (s ! child))) buf))"

definition xml_declaration :: string where
  "xml_declaration = ''<?xml version='' @ [CHR 0x22] @ ''1.0'' @ [CHR 0x22] @ ''?>''"

definition OutputXML :: "store \<Rightarrow> ref \<Rightarrow> string option" where
  "OutputXML s n = outputXML_walk s (Siblings (FirstChild (s ! n))) xml_declaration"

declare ChildNodes_loop.simps [code]

declare output_walk.simps [code]

declare outputXML_walk.simps [code]

section \<open>The tree a store holds\<close>

text \<open>
  The statements below describe a store by the tree it holds. The children of a node
  \<open>p\<close> are the nodes allocated after \<open>p\<close> whose \<^verbatim>\<open>Parent\<close> is \<open>p\<close>, in the order of their
  allocation, and \<open>tree_of s n\<close> is the tree below \<open>n\<close>: the kind and the data of \<open>n\<close>
  with the trees of its children. The store is \<open>linked\<close> when the four other pointer
  fields of every node say the same as \<^verbatim>\<open>Parent\<close>: \<^verbatim>\<open>FirstChild\<close> and \<^verbatim>\<open>LastChild\<close> are
  the first and the last child, \<^verbatim>\<open>PrevSibling\<close> and \<^verbatim>\<open>NextSibling\<close> the neighbours in the
  list of the parent's children, a node has a parent allocated before it or else has
  no siblings.
\<close>

definition children_of :: "store \<Rightarrow> ref \<Rightarrow> ref list" where
  "children_of s p = filter (\<lambda>c. Parent (s ! c) = Some p) [Suc p..<length s]"

definition first_opt :: "'a list \<Rightarrow> 'a option" where
  "first_opt xs = (case xs of [] \<Rightarrow> None | x # _ \<Rightarrow> Some x)"

definition last_opt :: "'a list \<Rightarrow> 'a option" where
  "last_opt xs = (if xs = [] then None else Some (last xs))"

definition prev_in :: "ref list \<Rightarrow> nat \<Rightarrow> ref option" where
  "prev_in cs i = (if i = 0 then None else Some (cs ! (i - 1)))"

definition next_in :: "ref list \<Rightarrow> nat \<Rightarrow> ref option" where
  "next_in cs i = (if Suc i < length cs then Some (cs ! Suc i) else None)"

definition chain_ok :: "store \<Rightarrow> ref \<Rightarrow> ref list \<Rightarrow> bool" where
  "chain_ok s p cs =
     (FirstChild (s ! p) = first_opt cs \<and> LastChild (s ! p) = last_opt cs \<and>
      (\<forall>i<length cs. PrevSibling (s ! (cs ! i)) = prev_in cs i \<and>
                      NextSibling (s ! (cs ! i)) = next_in cs i))"

definition linked :: "store \<Rightarrow> bool" where
  "linked s =
     (\<forall>c<length s.
        (case Parent (s ! c) of
           None \<Rightarrow> PrevSibling (s ! c) = None \<and> NextSibling (s ! c) = None
         | Some p \<Rightarrow> p < c) \<and>
        chain_ok s c (children_of s c))"

datatype tree = Tree NodeType string "tree list"

function tree_of :: "store \<Rightarrow> ref \<Rightarrow> tree" where
  "tree_of s n = Tree (Type (s ! n)) (Data (s ! n)) (map (tree_of s) (children_of s n))"
  by pat_completeness auto
termination
  by (relation "measure (\<lambda>(s, n). length s - n)") (auto simp: children_of_def)

declare tree_of.simps [simp del]

fun subtrees :: "tree \<Rightarrow> tree list" where
  "subtrees (Tree ty d ts) = ts"

fun root_type :: "tree \<Rightarrow> NodeType" where
  "root_type (Tree ty d ts) = ty"

fun root_data :: "tree \<Rightarrow> string" where
  "root_data (Tree ty d ts) = d"

text \<open>The nodes of a tree in depth-first pre-order, each with its kind and its data.\<close>

fun preorder :: "tree \<Rightarrow> (NodeType \<times> string) list" where
  "preorder (Tree ty d ts) = (ty, d) # concat (map preorder ts)"

definition text_content :: "tree \<Rightarrow> string" where
  "text_content t = concat (map snd (filter (\<lambda>x. fst x = TextNode) (preorder t)))"

text \<open>
  The markup of a node, in the spec's words: an element with an empty name is a
  generic \<^verbatim>\<open><element>\<close> wrapper, an element with a name is \<^verbatim>\<open><name>...</name>\<close>, a text
  node is its raw text.
\<close>

definition tag_name :: "string \<Rightarrow> string" where
  "tag_name d = (if d = [] then ''element'' else d)"

fun markup :: "tree \<Rightarrow> string" where
  "markup (Tree ty d ts) =
     (if ty = TextNode then d
      else ''<'' @ tag_name d @ ''>'' @ concat (map markup ts) @ ''</'' @ tag_name d @ ''>'')"

text \<open>
  The canonical text of a JSON value, in the spec's words: a string is itself, a
  number and a boolean are their renderings, null has no text, and a container has the
  texts of its members in document order (the members of an object in the ascending
  order of the keys).
\<close>

function canonical_text :: "('f \<Rightarrow> string) \<Rightarrow> 'f json \<Rightarrow> string" where
  "canonical_text fmt JNull = []"
| "canonical_text fmt (JBool b) = FormatBool b"
| "canonical_text fmt (JNumber x) = fmt x"
| "canonical_text fmt (JString x) = x"
| "canonical_text fmt (JArray vs) = concat (map (canonical_text fmt) vs)"
| "canonical_text fmt (JObject kvs) =
     concat (map (\<lambda>kv. canonical_text fmt (snd kv)) (sort_key fst kvs))"
  by pat_completeness auto
termination
  by (relation "measure (\<lambda>(fmt, v). size v)")
    (auto simp: less_Suc_eq_le size_list_estimation' dest!: size_list_estimation'
       [where f = "size_prod (\<lambda>_. 0) size" and y = 0, rotated])

text \<open>
  The trees that \<open>parseValue\<close> attaches below \<open>top'\<close> for a value: none for null, a text
  node for a scalar, an element per array entry and an element per key.
\<close>

function build :: "('f \<Rightarrow> string) \<Rightarrow> 'f json \<Rightarrow> tree list" where
  "build fmt JNull = []"
| "build fmt (JBool b) = [Tree TextNode (FormatBool b) []]"
| "build fmt (JNumber x) = [Tree TextNode (fmt x) []]"
| "build fmt (JString x) = [Tree TextNode x []]"
| "build fmt (JArray vs) = map (\<lambda>v. Tree ElementNode [] (build fmt v)) vs"
| "build fmt (JObject kvs) =
     map (\<lambda>k. Tree ElementNode k (build fmt (index_map kvs k))) (sort (map fst kvs))"
  by pat_completeness auto
termination
proof (relation "measure (\<lambda>(fmt, v). size v)", goal_cases)
  case (3 fmt kvs k)
  then obtain w where "(k, w) \<in> set kvs"
    by auto
  moreover from this have "map_of kvs k \<noteq> None"
    by (metis map_of_eq_None_iff fst_conv image_eqI)
  ultimately obtain w' where w': "map_of kvs k = Some w'" "(k, w') \<in> set kvs"
    by (auto dest: map_of_SomeD)
  then have "size_prod (\<lambda>_. 0) size (k, w') \<le> size_list (size_prod (\<lambda>_. 0) size) kvs"
    by (simp add: size_list_estimation')
  with w' show ?case
    by (simp add: index_map_def)
qed (auto simp: less_Suc_eq_le size_list_estimation')

text \<open>
  Positions in a JSON document: the document itself is the empty path, \<open>Index i\<close> steps
  to the \<open>i\<close>-th element of an array and \<open>Member k\<close> to the value of the key \<open>k\<close> of an
  object. \<open>node_at s n p\<close> is the node below which the value at the position \<open>p\<close> is
  attached: the node \<open>n\<close> for the empty path, the \<open>i\<close>-th child for an array element,
  the child named \<open>k\<close> for an object member.
\<close>

datatype step = Index nat | Member string

fun value_at :: "'f json \<Rightarrow> step list \<Rightarrow> 'f json option" where
  "value_at v [] = Some v"
| "value_at (JArray vs) (Index i # p) = (if i < length vs then value_at (vs ! i) p else None)"
| "value_at (JObject kvs) (Member k # p) =
     (case map_of kvs k of None \<Rightarrow> None | Some v \<Rightarrow> value_at v p)"
| "value_at _ _ = None"

fun node_at :: "store \<Rightarrow> ref \<Rightarrow> step list \<Rightarrow> ref option" where
  "node_at s n [] = Some n"
| "node_at s n (Index i # p) =
     (case ChildNodes s n of
        None \<Rightarrow> None
      | Some cs \<Rightarrow> if i < length cs then node_at s (cs ! i) p else None)"
| "node_at s n (Member k # p) =
     (case ChildNodes s n of
        None \<Rightarrow> None
      | Some cs \<Rightarrow>
          (case find (\<lambda>c. Data (s ! c) = k) cs of
             None \<Rightarrow> None
           | Some c \<Rightarrow> node_at s c p))"

section \<open>Invariants of the construction\<close>

text \<open>
  A later store \<open>preserves\<close> an earlier one when it keeps every node of the earlier
  store with its parent, kind, data and level: the builder never changes these fields
  of a node once it is linked. \<open>attached s s' top' ts\<close> relates the stores before and
  after a call of \<open>parseValue\<close> with the node \<open>top'\<close>: the later store is linked and
  preserves the earlier one, every node allocated by the call is an element or a text
  node whose parent is \<open>top'\<close> or another node of the call, and the new children of
  \<open>top'\<close> hold the trees \<open>ts\<close>.
\<close>

definition preserves :: "store \<Rightarrow> store \<Rightarrow> bool" where
  "preserves s s' =
     (length s \<le> length s' \<and>
      (\<forall>r<length s. Parent (s' ! r) = Parent (s ! r) \<and> Type (s' ! r) = Type (s ! r) \<and>
         Data (s' ! r) = Data (s ! r) \<and> level (s' ! r) = level (s ! r)))"

definition attached :: "store \<Rightarrow> store \<Rightarrow> ref \<Rightarrow> tree list \<Rightarrow> bool" where
  "attached s s' top' ts =
     (linked s' \<and> preserves s s' \<and>
      (\<forall>c. length s \<le> c \<longrightarrow> c < length s' \<longrightarrow>
         Type (s' ! c) \<noteq> DocumentNode \<and>
         (\<exists>p. Parent (s' ! c) = Some p \<and> (p = top' \<or> length s \<le> p))) \<and>
      map (tree_of s') (filter (\<lambda>c. Parent (s' ! c) = Some top') [length s..<length s']) = ts)"

text \<open>
  Two properties of the stores the builder produces: a text node has no children, and
  only the first node of the store is a document node. A tree is \<open>leafy\<close> when its text
  nodes have no children.
\<close>

definition text_leaves :: "store \<Rightarrow> bool" where
  "text_leaves s = (\<forall>m<length s. Type (s ! m) = TextNode \<longrightarrow> children_of s m = [])"

definition no_inner_document :: "store \<Rightarrow> bool" where
  "no_inner_document s = (\<forall>m<length s. 0 < m \<longrightarrow> Type (s ! m) \<noteq> DocumentNode)"

fun leafy :: "tree \<Rightarrow> bool" where
  "leafy (Tree ty d ts) = ((ty = TextNode \<longrightarrow> ts = []) \<and> list_all leafy ts)"

section \<open>Example inputs\<close>

text \<open>
  Inputs for the closed instances of the theorems below. In the examples a number is
  given by its decimal text, which the formatter returns as it is; the decoder knows
  four inputs and rejects every other one; a reader either delivers its bytes or fails.
  The three documents are
  \<^verbatim>\<open>{"name":"John","age":31,"city":"New York"}\<close>, \<^verbatim>\<open>[1,2,3,4,5,6]\<close> and
  \<^verbatim>\<open>{"cars":[null,{"name":"Ford"}],"owner":null}\<close>.
\<close>

definition example_FormatFloat :: "string \<Rightarrow> string" where
  "example_FormatFloat x = x"

definition example_object :: "string json" where
  "example_object =
     JObject [(''name'', JString ''John''), (''age'', JNumber ''31''),
       (''city'', JString ''New York'')]"

definition example_array :: "string json" where
  "example_array =
     JArray [JNumber ''1'', JNumber ''2'', JNumber ''3'', JNumber ''4'', JNumber ''5'',
       JNumber ''6'']"

definition example_nested :: "string json" where
  "example_nested =
     JObject [(''cars'', JArray [JNull, JObject [(''name'', JString ''Ford'')]]),
       (''owner'', JNull)]"

definition example_Unmarshal :: "string \<Rightarrow> string + string json" where
  "example_Unmarshal b =
     (if b = ''object'' then Inr example_object
      else if b = ''array'' then Inr example_array
      else if b = ''nested'' then Inr example_nested
      else if b = ''null'' then Inr JNull
      else Inl ''invalid character'')"

definition example_ReadAll :: "string option \<Rightarrow> string \<times> string option" where
  "example_ReadAll r = (case r of None \<Rightarrow> ([], Some ''unexpected EOF'') | Some b \<Rightarrow> (b, None))"

section \<open>Child lists\<close>

lemma children_of_iff:
  "c \<in> set (children_of s p) \<longleftrightarrow> p < c \<and> c < length s \<and> Parent (s ! c) = Some p"
  by (auto simp: children_of_def)

lemma children_of_distinct: "distinct (children_of s p)"
  by (simp add: children_of_def)

lemma children_of_sorted: "sorted_wrt (<) (children_of s p)"
  by (simp add: children_of_def sorted_wrt_filter)

lemma last_opt_children:
  "last_opt (children_of s p) = Some t \<Longrightarrow> p < t \<and> t < length s \<and> Parent (s ! t) = Some p"
  by (metis children_of_iff last_in_set last_opt_def option.distinct(1) option.inject)

lemma first_opt_None [simp]: "first_opt xs = None \<longleftrightarrow> xs = []"
  by (cases xs) (simp_all add: first_opt_def)

lemma last_opt_None [simp]: "last_opt xs = None \<longleftrightarrow> xs = []"
  by (simp add: last_opt_def)

section \<open>Linking a new node\<close>

text \<open>
  A node allocated at a deeper level than \<open>top'\<close> becomes the last child of \<open>top'\<close>, and
  the store stays linked. The branch of \<^verbatim>\<open>addNode\<close> for equal levels is never taken by
  \<open>parseValue\<close>, which always passes a level above the level of \<open>top'\<close>.
\<close>

lemma addNode_child:
  assumes "linked s" "top' < length s" "level (s ! top') < lvl"
  shows "\<exists>s2. addNode top' (length s) (s @ [make_Node ty d lvl]) = Some s2 \<and>
     length s2 = Suc (length s) \<and>
     (\<forall>r<length s. r \<noteq> top' \<longrightarrow> Some r \<noteq> last_opt (children_of s top') \<longrightarrow> s2 ! r = s ! r) \<and>
     s2 ! top' = (s ! top')\<lparr>FirstChild := first_opt (children_of s top' @ [length s]),
         LastChild := Some (length s)\<rparr> \<and>
     (\<forall>t. last_opt (children_of s top') = Some t \<longrightarrow>
         s2 ! t = (s ! t)\<lparr>NextSibling := Some (length s)\<rparr>) \<and>
     s2 ! length s = (make_Node ty d lvl)\<lparr>Parent := Some top',
         PrevSibling := last_opt (children_of s top')\<rparr>"
proof -
  let ?cs = "children_of s top'"
  from assms have ch: "chain_ok s top' ?cs"
    by (simp add: linked_def)
  have lv: "level ((s @ [make_Node ty d lvl]) ! length s) = lvl"
    "level ((s @ [make_Node ty d lvl]) ! top') = level (s ! top')"
    using assms by (simp_all add: nth_append make_Node_def)
  show ?thesis
  proof (cases "?cs")
    case Nil
    with ch have "FirstChild (s ! top') = None"
      by (simp add: chain_ok_def first_opt_def)
    with Nil assms lv show ?thesis
      by (simp add: addNode_def Let_def nth_append first_opt_def last_opt_def make_Node_def)
  next
    case (Cons c cs')
    with ch have fc: "FirstChild (s ! top') = Some c" "LastChild (s ! top') = Some (last ?cs)"
      by (simp_all add: chain_ok_def first_opt_def last_opt_def)
    from Cons have lo: "last_opt ?cs = Some (last ?cs)"
      by (simp add: last_opt_def)
    from last_opt_children [OF lo] have t: "top' < last ?cs" "last ?cs < length s"
      by simp_all
    with Cons assms lv fc lo show ?thesis
      by (simp add: addNode_def Let_def nth_append first_opt_def make_Node_def nth_list_update)
  qed
qed

lemma preserves_refl [simp]: "preserves s s"
  by (simp add: preserves_def)

lemma preserves_trans: "preserves s s' \<Longrightarrow> preserves s' s'' \<Longrightarrow> preserves s s''"
  by (auto simp: preserves_def)

lemma children_of_preserves_old:
  assumes "preserves s s'"
    and "\<forall>c. length s \<le> c \<longrightarrow> c < length s' \<longrightarrow> Parent (s' ! c) \<noteq> Some p"
  shows "children_of s' p = children_of s p"
proof -
  have "[Suc p..<length s'] = [Suc p..<length s] @ [max (Suc p) (length s)..<length s']"
  proof (cases "Suc p \<le> length s")
    case True
    moreover from assms(1) have "length s \<le> length s'"
      by (simp add: preserves_def)
    ultimately show ?thesis
      using upt_add_eq_append [of "Suc p" "length s" "length s' - length s"]
      by (simp add: max_def)
  next
    case False
    then show ?thesis by (simp add: max_def)
  qed
  moreover have "filter (\<lambda>c. Parent (s' ! c) = Some p) [max (Suc p) (length s)..<length s'] = []"
    using assms(2) by (auto simp: filter_empty_conv)
  moreover have "filter (\<lambda>c. Parent (s' ! c) = Some p) [Suc p..<length s]
      = filter (\<lambda>c. Parent (s ! c) = Some p) [Suc p..<length s]"
    using assms(1) by (intro filter_cong) (auto simp: preserves_def)
  ultimately show ?thesis
    by (simp add: children_of_def)
qed

lemma children_of_snoc:
  assumes "preserves s s'" "length s' = Suc (length s)" "p < length s"
  shows "children_of s' p =
     children_of s p @ (if Parent (s' ! length s) = Some p then [length s] else [])"
proof -
  have "filter (\<lambda>c. Parent (s' ! c) = Some p) [Suc p..<length s]
      = filter (\<lambda>c. Parent (s ! c) = Some p) [Suc p..<length s]"
    using assms(1) by (intro filter_cong) (auto simp: preserves_def)
  with assms(2,3) show ?thesis
    by (simp add: children_of_def)
qed

lemma children_of_beyond: "length s \<le> Suc p \<Longrightarrow> children_of s p = []"
  by (simp add: children_of_def)

lemma last_opt_nth:
  "distinct cs \<Longrightarrow> i < length cs \<Longrightarrow> (Some (cs ! i) = last_opt cs) \<longleftrightarrow> \<not> Suc i < length cs"
  by (auto simp: last_opt_def last_conv_nth nth_eq_iff_index_eq)

lemma prev_in_snoc: "i < length cs \<Longrightarrow> prev_in (cs @ [x]) i = prev_in cs i"
  by (auto simp: prev_in_def nth_append)

lemma next_in_snoc:
  "i < length cs \<Longrightarrow> next_in (cs @ [x]) i = (if Suc i < length cs then next_in cs i else Some x)"
  by (auto simp: next_in_def nth_append)

lemma prev_in_last: "prev_in (cs @ [x]) (length cs) = last_opt cs"
  by (simp add: prev_in_def last_opt_def nth_append last_conv_nth)

lemma next_in_last: "next_in (cs @ [x]) (length cs) = None"
  by (simp add: next_in_def)

lemma addNode_linked:
  assumes "linked s" "top' < length s" "level (s ! top') < lvl"
  shows "\<exists>s2. addNode top' (length s) (s @ [make_Node ty d lvl]) = Some s2 \<and> linked s2 \<and>
     preserves s s2 \<and> length s2 = Suc (length s) \<and>
     Parent (s2 ! length s) = Some top' \<and> Type (s2 ! length s) = ty \<and>
     Data (s2 ! length s) = d \<and> level (s2 ! length s) = lvl"
proof -
  let ?N = "length s"
  let ?cs = "children_of s top'"
  from addNode_child [OF assms, of ty d] obtain s2 where
    s2: "addNode top' ?N (s @ [make_Node ty d lvl]) = Some s2"
    and len: "length s2 = Suc ?N"
    and oth: "\<And>r. r < ?N \<Longrightarrow> r \<noteq> top' \<Longrightarrow> Some r \<noteq> last_opt ?cs \<Longrightarrow> s2 ! r = s ! r"
    and tp: "s2 ! top' = (s ! top')\<lparr>FirstChild := first_opt (?cs @ [?N]),
         LastChild := Some ?N\<rparr>"
    and lst: "\<And>t. last_opt ?cs = Some t \<Longrightarrow> s2 ! t = (s ! t)\<lparr>NextSibling := Some ?N\<rparr>"
    and new: "s2 ! ?N = (make_Node ty d lvl)\<lparr>Parent := Some top',
         PrevSibling := last_opt ?cs\<rparr>"
    by blast
  have tnot: "Some top' \<noteq> last_opt ?cs"
    using last_opt_children [of s top' top'] by auto
  have node: "s2 ! r =
      (if r = top' then (s ! top')\<lparr>FirstChild := first_opt (?cs @ [?N]), LastChild := Some ?N\<rparr>
       else if Some r = last_opt ?cs then (s ! r)\<lparr>NextSibling := Some ?N\<rparr>
       else s ! r)" if "r < ?N" for r
    using that oth [of r] tp lst [of r] by auto
  have pres: "preserves s s2"
    by (simp add: preserves_def len node)
  have par: "Parent (s2 ! ?N) = Some top'"
    by (simp add: new)
  have ch_top: "children_of s2 top' = ?cs @ [?N]"
    using children_of_snoc [OF pres len assms(2)] par by simp
  have ch_old: "children_of s2 p = children_of s p" if "p < ?N" "p \<noteq> top'" for p
    using children_of_snoc [OF pres len that(1)] par that(2) by simp
  have ch_new: "children_of s2 ?N = []"
    by (simp add: children_of_beyond len)
  have "(case Parent (s2 ! c) of
           None \<Rightarrow> PrevSibling (s2 ! c) = None \<and> NextSibling (s2 ! c) = None
         | Some p \<Rightarrow> p < c) \<and> chain_ok s2 c (children_of s2 c)" if c: "c < Suc ?N" for c
  proof (cases "c = ?N")
    case True
    then show ?thesis
      using assms(2) by (simp add: new ch_new chain_ok_def make_Node_def first_opt_def last_opt_def)
  next
    case False
    with c have cN: "c < ?N" by simp
    from assms(1) cN have old: "(case Parent (s ! c) of
           None \<Rightarrow> PrevSibling (s ! c) = None \<and> NextSibling (s ! c) = None
         | Some p \<Rightarrow> p < c)" "chain_ok s c (children_of s c)"
      by (simp_all add: linked_def)
    have "Parent (s ! c) = Some top'" if "Some c = last_opt ?cs"
      using last_opt_children [of s top' c] that by simp
    with old(1) have first: "(case Parent (s2 ! c) of
           None \<Rightarrow> PrevSibling (s2 ! c) = None \<and> NextSibling (s2 ! c) = None
         | Some p \<Rightarrow> p < c)"
      using tnot by (cases "c = top'") (auto simp: node [OF cN] tp split: option.splits)
    have "chain_ok s2 c (children_of s2 c)"
    proof (cases "c = top'")
      case True
      have "PrevSibling (s2 ! ((?cs @ [?N]) ! i)) = prev_in (?cs @ [?N]) i \<and>
          NextSibling (s2 ! ((?cs @ [?N]) ! i)) = next_in (?cs @ [?N]) i"
        if "i < Suc (length ?cs)" for i
      proof (cases "i = length ?cs")
        case True
        then show ?thesis
          by (simp add: new prev_in_last next_in_last make_Node_def)
      next
        case False
        with that have i: "i < length ?cs" by simp
        then have "?cs ! i \<in> set ?cs" by simp
        then have ci: "top' < ?cs ! i" "?cs ! i < ?N"
          by (simp_all add: children_of_iff)
        from old(2) True i have "PrevSibling (s ! (?cs ! i)) = prev_in ?cs i"
          "NextSibling (s ! (?cs ! i)) = next_in ?cs i"
          by (simp_all add: chain_ok_def)
        with i ci show ?thesis
          using last_opt_nth [OF children_of_distinct i]
          by (auto simp: nth_append node prev_in_snoc next_in_snoc next_in_def)
      qed
      with True show ?thesis
        by (simp add: ch_top chain_ok_def tp last_opt_def)
    next
      case False
      let ?cc = "children_of s c"
      have "PrevSibling (s2 ! (?cc ! i)) = prev_in ?cc i \<and>
          NextSibling (s2 ! (?cc ! i)) = next_in ?cc i" if i: "i < length ?cc" for i
      proof -
        from i have "?cc ! i \<in> set ?cc" by simp
        then have ci: "?cc ! i < ?N" "Parent (s ! (?cc ! i)) = Some c"
          by (simp_all add: children_of_iff)
        have "Some (?cc ! i) \<noteq> last_opt ?cs"
          using last_opt_children [of s top' "?cc ! i"] ci False by auto
        moreover from old(2) i have "PrevSibling (s ! (?cc ! i)) = prev_in ?cc i"
          "NextSibling (s ! (?cc ! i)) = next_in ?cc i"
          by (simp_all add: chain_ok_def)
        ultimately show ?thesis
          using ci by (auto simp: node)
      qed
      then show ?thesis
        using False old(2) cN by (auto simp: ch_old chain_ok_def node)
    qed
    with first show ?thesis by simp
  qed
  then have "linked s2"
    by (simp add: linked_def len)
  with s2 pres len show ?thesis
    by (simp add: new make_Node_def)
qed

section \<open>The trees of a growing store\<close>

lemma tree_of_frame:
  assumes "preserves s s'"
    and "\<forall>c. length s \<le> c \<longrightarrow> c < length s' \<longrightarrow>
           (\<forall>p. Parent (s' ! c) = Some p \<longrightarrow> p < n \<or> length s \<le> p)"
    and "n \<le> d" "d < length s"
  shows "tree_of s' d = tree_of s d"
  using assms(3,4)
proof (induction "length s - d" arbitrary: d rule: less_induct)
  case less
  have "children_of s' d = children_of s d"
    using assms(1)
  proof (rule children_of_preserves_old)
    show "\<forall>c. length s \<le> c \<longrightarrow> c < length s' \<longrightarrow> Parent (s' ! c) \<noteq> Some d"
      using assms(2) less.prems by fastforce
  qed
  moreover have "map (tree_of s') (children_of s d) = map (tree_of s) (children_of s d)"
  proof (rule map_cong [OF refl])
    fix c assume "c \<in> set (children_of s d)"
    then have "d < c" "c < length s"
      by (simp_all add: children_of_iff)
    with less.prems show "tree_of s' c = tree_of s c"
      by (intro less.hyps) auto
  qed
  moreover have "Type (s' ! d) = Type (s ! d)" "Data (s' ! d) = Data (s ! d)"
    using assms(1) less.prems by (simp_all add: preserves_def)
  ultimately show ?case
    by (simp add: tree_of.simps [of s' d] tree_of.simps [of s d])
qed

lemma attached_refl: "linked s \<Longrightarrow> attached s s top' []"
  by (simp add: attached_def)

lemma attached_leaf:
  assumes "linked s2" "preserves s s2" "length s2 = Suc (length s)"
    "Parent (s2 ! length s) = Some top'" "Type (s2 ! length s) = ty" "Data (s2 ! length s) = d"
    "ty \<noteq> DocumentNode"
  shows "attached s s2 top' [Tree ty d []]"
proof -
  have "tree_of s2 (length s) = Tree ty d []"
    using assms by (simp add: tree_of.simps [of s2 "length s"] children_of_beyond)
  with assms show ?thesis
    by (auto simp: attached_def less_Suc_eq_le)
qed

lemma attached_step:
  assumes top: "top' < length s"
    and s2: "preserves s s2" "length s2 = Suc (length s)"
      "Parent (s2 ! length s) = Some top'" "Type (s2 ! length s) = ElementNode"
      "Data (s2 ! length s) = k"
    and s3: "attached s2 s3 (length s) ts1"
    and s4: "attached s3 s4 top' ts2"
  shows "attached s s4 top' (Tree ElementNode k ts1 # ts2)"
proof -
  let ?N = "length s"
  from s3 have p23: "preserves s2 s3"
    and new3: "\<And>c. Suc ?N \<le> c \<Longrightarrow> c < length s3 \<Longrightarrow> Type (s3 ! c) \<noteq> DocumentNode \<and>
         (\<exists>p. Parent (s3 ! c) = Some p \<and> (p = ?N \<or> Suc ?N \<le> p))"
    and t3: "map (tree_of s3) (filter (\<lambda>c. Parent (s3 ! c) = Some ?N) [Suc ?N..<length s3]) = ts1"
    by (simp_all add: attached_def s2(2))
  from s4 have l4: "linked s4" and p34: "preserves s3 s4"
    and new4: "\<And>c. length s3 \<le> c \<Longrightarrow> c < length s4 \<Longrightarrow> Type (s4 ! c) \<noteq> DocumentNode \<and>
         (\<exists>p. Parent (s4 ! c) = Some p \<and> (p = top' \<or> length s3 \<le> p))"
    and t4: "map (tree_of s4) (filter (\<lambda>c. Parent (s4 ! c) = Some top') [length s3..<length s4])
         = ts2"
    by (simp_all add: attached_def)
  have len: "Suc ?N \<le> length s3" "length s3 \<le> length s4"
    using p23 p34 s2(2) by (simp_all add: preserves_def)
  have p24: "preserves s2 s4"
    using p23 p34 by (rule preserves_trans)
  have p04: "preserves s s4"
    using s2(1) p24 by (rule preserves_trans)
  have N4: "Parent (s4 ! ?N) = Some top'" "Type (s4 ! ?N) = ElementNode" "Data (s4 ! ?N) = k"
    using p24 s2 by (simp_all add: preserves_def)
  have mid: "Type (s4 ! c) \<noteq> DocumentNode \<and>
      (\<exists>p. Parent (s4 ! c) = Some p \<and> (p = ?N \<or> Suc ?N \<le> p))"
    if "Suc ?N \<le> c" "c < length s3" for c
    using new3 [OF that] p34 that by (simp add: preserves_def)
  have new: "Type (s4 ! c) \<noteq> DocumentNode \<and>
      (\<exists>p. Parent (s4 ! c) = Some p \<and> (p = top' \<or> ?N \<le> p))"
    if "?N \<le> c" "c < length s4" for c
  proof -
    show ?thesis
    proof (cases "c = ?N")
      case True
      then show ?thesis by (simp add: N4)
    next
      case False
      show ?thesis
      proof (cases "c < length s3")
        case True
        with False that have "Suc ?N \<le> c" by simp
        from mid [OF this True] show ?thesis by auto
      next
        case False
        then have "length s3 \<le> c" by simp
        from new4 [OF this that(2)] len show ?thesis by auto
      qed
    qed
  qed
  have "[?N..<length s4] = ?N # [Suc ?N..<length s3] @ [length s3..<length s4]"
    using len upt_add_eq_append [of "Suc ?N" "length s3" "length s4 - length s3"]
    by (simp add: upt_conv_Cons)
  moreover have "filter (\<lambda>c. Parent (s4 ! c) = Some top') [Suc ?N..<length s3] = []"
    using mid top by (fastforce simp: filter_empty_conv)
  ultimately have roots: "filter (\<lambda>c. Parent (s4 ! c) = Some top') [?N..<length s4]
      = ?N # filter (\<lambda>c. Parent (s4 ! c) = Some top') [length s3..<length s4]"
    by (simp add: N4)
  have "tree_of s4 ?N = tree_of s3 ?N"
    using p34
  proof (rule tree_of_frame)
    show "\<forall>c. length s3 \<le> c \<longrightarrow> c < length s4 \<longrightarrow>
        (\<forall>p. Parent (s4 ! c) = Some p \<longrightarrow> p < ?N \<or> length s3 \<le> p)"
      using new4 top by fastforce
  qed (use len in auto)
  moreover have "children_of s3 ?N
      = filter (\<lambda>c. Parent (s3 ! c) = Some ?N) [Suc ?N..<length s3]"
    by (simp add: children_of_def)
  moreover have "Type (s3 ! ?N) = ElementNode" "Data (s3 ! ?N) = k"
    using p23 s2 by (simp_all add: preserves_def)
  ultimately have "tree_of s4 ?N = Tree ElementNode k ts1"
    using t3 by (simp add: tree_of.simps [of s3 ?N])
  with roots t4 l4 p04 new show ?thesis
    by (simp add: attached_def)
qed

section \<open>What parseValue attaches\<close>

lemma new_Node_make_Node: "new_Node ty d lvl s = (length s, s @ [make_Node ty d lvl])"
  by (simp add: new_Node_def)

lemma attached_scalar:
  assumes "linked s" "top' < length s" "level (s ! top') < lvl"
  shows "\<exists>s'. (let (n, s) = new_Node TextNode d lvl s in addNode top' n s) = Some s' \<and>
     attached s s' top' [Tree TextNode d []]"
proof -
  from addNode_linked [OF assms, of TextNode d] obtain s2 where
    "addNode top' (length s) (s @ [make_Node TextNode d lvl]) = Some s2" "linked s2"
    "preserves s s2" "length s2 = Suc (length s)" "Parent (s2 ! length s) = Some top'"
    "Type (s2 ! length s) = TextNode" "Data (s2 ! length s) = d"
    by blast
  then show ?thesis
    by (simp add: new_Node_make_Node attached_leaf)
qed

lemma attached_loop_step:
  assumes "linked s" "top' < length s" "level (s ! top') < lvl"
    and body: "\<And>s2. addNode top' (length s) (s @ [make_Node ElementNode k lvl]) = Some s2 \<Longrightarrow>
       linked s2 \<Longrightarrow> length s < length s2 \<Longrightarrow> level (s2 ! length s) < lvl + 1 \<Longrightarrow>
       \<exists>s3. inner (length s) s2 = Some s3 \<and> attached s2 s3 (length s) ts1"
    and rest: "\<And>s2 s3. addNode top' (length s) (s @ [make_Node ElementNode k lvl]) = Some s2 \<Longrightarrow>
       inner (length s) s2 = Some s3 \<Longrightarrow>
       linked s3 \<Longrightarrow> top' < length s3 \<Longrightarrow> level (s3 ! top') < lvl \<Longrightarrow>
       \<exists>s4. loop s3 = Some s4 \<and> attached s3 s4 top' ts2"
  shows "\<exists>s'. (let (n, s) = new_Node ElementNode k lvl s in
       case addNode top' n s of
         None \<Rightarrow> None
       | Some s \<Rightarrow> (case inner n s of None \<Rightarrow> None | Some s \<Rightarrow> loop s)) = Some s' \<and>
     attached s s' top' (Tree ElementNode k ts1 # ts2)"
proof -
  from addNode_linked [OF assms(1-3), of ElementNode k] obtain s2 where
    s2: "addNode top' (length s) (s @ [make_Node ElementNode k lvl]) = Some s2" "linked s2"
    "preserves s s2" "length s2 = Suc (length s)" "Parent (s2 ! length s) = Some top'"
    "Type (s2 ! length s) = ElementNode" "Data (s2 ! length s) = k"
    "level (s2 ! length s) = lvl"
    by blast
  from body [OF s2(1,2)] s2(4,8) obtain s3 where
    s3: "inner (length s) s2 = Some s3" "attached s2 s3 (length s) ts1"
    by auto
  from s3(2) have "linked s3" "preserves s2 s3"
    by (simp_all add: attached_def)
  with s2(3) assms(2,3) have "top' < length s3" "level (s3 ! top') < lvl"
    by (auto simp: preserves_def)
  from rest [OF s2(1) s3(1) \<open>linked s3\<close> this] obtain s4 where
    s4: "loop s3 = Some s4" "attached s3 s4 top' ts2"
    by blast
  from attached_step [OF assms(2) s2(3-7) s3(2) s4(2)] s2(1) s3(1) s4(1) show ?thesis
    by (simp add: new_Node_make_Node)
qed

lemma parse_attached:
  "linked s \<Longrightarrow> top' < length s \<Longrightarrow> level (s ! top') < lvl \<Longrightarrow>
     \<exists>s'. parseValue fmt x top' lvl s = Some s' \<and> attached s s' top' (build fmt x)"
  "linked s \<Longrightarrow> top' < length s \<Longrightarrow> level (s ! top') < lvl \<Longrightarrow>
     \<exists>s'. parseArray fmt vs top' lvl s = Some s' \<and>
       attached s s' top' (map (\<lambda>v. Tree ElementNode [] (build fmt v)) vs)"
  "linked s \<Longrightarrow> top' < length s \<Longrightarrow> level (s ! top') < lvl \<Longrightarrow>
     \<exists>s'. parseObject fmt kvs keys top' lvl s = Some s' \<and>
       attached s s' top' (map (\<lambda>k. Tree ElementNode k (build fmt (index_map kvs k))) keys)"
proof (induction fmt x top' lvl s and fmt vs top' lvl s and fmt kvs keys top' lvl s
    rule: parseValue_parseArray_parseObject.induct)
  case (1 fmt v top' lvl s)
  then show ?case by simp
next
  case (2 fmt v top' lvl s)
  then show ?case by simp
next
  case (3 fmt v top' lvl s)
  then show ?case using attached_scalar [of s top' lvl v] by simp
next
  case (4 fmt v top' lvl s)
  then show ?case using attached_scalar [of s top' lvl "fmt v"] by simp
next
  case (5 fmt v top' lvl s)
  then show ?case using attached_scalar [of s top' lvl "FormatBool v"] by simp
next
  case (6 fmt top' lvl s)
  then show ?case by (simp add: attached_refl)
next
  case (7 fmt top' lvl s)
  then show ?case by (simp add: attached_refl)
next
  case (8 fmt vv vs top' lvl s)
  have "\<exists>s'. (let (n, s) = new_Node ElementNode [] lvl s in
       case addNode top' n s of
         None \<Rightarrow> None
       | Some s \<Rightarrow> (case parseValue fmt vv n (lvl + 1) s of None \<Rightarrow> None
           | Some s \<Rightarrow> parseArray fmt vs top' lvl s)) = Some s' \<and>
     attached s s' top' (Tree ElementNode [] (build fmt vv) #
       map (\<lambda>v. Tree ElementNode [] (build fmt v)) vs)"
    using "8.prems"
  proof (rule attached_loop_step)
    fix s2
    assume "addNode top' (length s) (s @ [make_Node ElementNode [] lvl]) = Some s2"
      "linked s2" "length s < length s2" "level (s2 ! length s) < lvl + 1"
    then show "\<exists>s3. parseValue fmt vv (length s) (lvl + 1) s2 = Some s3 \<and>
        attached s2 s3 (length s) (build fmt vv)"
      by (intro "8.IH"(1)) (simp_all add: new_Node_make_Node)
  next
    fix s2 s3
    assume "addNode top' (length s) (s @ [make_Node ElementNode [] lvl]) = Some s2"
      "parseValue fmt vv (length s) (lvl + 1) s2 = Some s3"
      "linked s3" "top' < length s3" "level (s3 ! top') < lvl"
    then show "\<exists>s4. parseArray fmt vs top' lvl s3 = Some s4 \<and>
        attached s3 s4 top' (map (\<lambda>v. Tree ElementNode [] (build fmt v)) vs)"
      by (intro "8.IH"(2)) (simp_all add: new_Node_make_Node)
  qed
  then show ?case by simp
next
  case (9 fmt v top' lvl s)
  then show ?case by (simp add: attached_refl)
next
  case (10 fmt v key keys top' lvl s)
  have "\<exists>s'. (let (n, s) = new_Node ElementNode key lvl s in
       case addNode top' n s of
         None \<Rightarrow> None
       | Some s \<Rightarrow> (case parseValue fmt (index_map v key) n (lvl + 1) s of None \<Rightarrow> None
           | Some s \<Rightarrow> parseObject fmt v keys top' lvl s)) = Some s' \<and>
     attached s s' top' (Tree ElementNode key (build fmt (index_map v key)) #
       map (\<lambda>k. Tree ElementNode k (build fmt (index_map v k))) keys)"
    using "10.prems"
  proof (rule attached_loop_step)
    fix s2
    assume "addNode top' (length s) (s @ [make_Node ElementNode key lvl]) = Some s2"
      "linked s2" "length s < length s2" "level (s2 ! length s) < lvl + 1"
    then show "\<exists>s3. parseValue fmt (index_map v key) (length s) (lvl + 1) s2 = Some s3 \<and>
        attached s2 s3 (length s) (build fmt (index_map v key))"
      by (intro "10.IH"(1)) (simp_all add: new_Node_make_Node)
  next
    fix s2 s3
    assume "addNode top' (length s) (s @ [make_Node ElementNode key lvl]) = Some s2"
      "parseValue fmt (index_map v key) (length s) (lvl + 1) s2 = Some s3"
      "linked s3" "top' < length s3" "level (s3 ! top') < lvl"
    then show "\<exists>s4. parseObject fmt v keys top' lvl s3 = Some s4 \<and>
        attached s3 s4 top' (map (\<lambda>k. Tree ElementNode k (build fmt (index_map v k))) keys)"
      by (intro "10.IH"(2)) (simp_all add: new_Node_make_Node)
  qed
  then show ?case by simp
qed

section \<open>The store of a parsed document\<close>

lemma linked_initial: "linked [make_Node DocumentNode [] 0]"
  by (simp add: linked_def make_Node_def chain_ok_def children_of_def first_opt_def last_opt_def)

lemma parse_tree:
  assumes "Unmarshal b = Inr v"
  shows "\<exists>s. parse fmt Unmarshal b = Some (s, Some 0, None) \<and> linked s \<and> 0 < length s \<and>
     Type (s ! 0) = DocumentNode \<and> Data (s ! 0) = [] \<and> Parent (s ! 0) = None \<and>
     (\<forall>c. 0 < c \<longrightarrow> c < length s \<longrightarrow>
        Type (s ! c) \<noteq> DocumentNode \<and> (\<exists>p<c. Parent (s ! c) = Some p)) \<and>
     map (tree_of s) (children_of s 0) = build fmt v"
proof -
  let ?s0 = "[make_Node DocumentNode [] 0]"
  have "\<exists>s'. parseValue fmt v 0 1 ?s0 = Some s' \<and> attached ?s0 s' 0 (build fmt v)"
    by (rule parse_attached(1)) (simp_all add: linked_initial, simp add: make_Node_def)
  then obtain s where s: "parseValue fmt v 0 1 ?s0 = Some s" "attached ?s0 s 0 (build fmt v)"
    by blast
  from s(2) have l: "linked s" and p: "preserves ?s0 s"
    and new: "\<And>c. 1 \<le> c \<Longrightarrow> c < length s \<Longrightarrow>
       Type (s ! c) \<noteq> DocumentNode \<and> (\<exists>p. Parent (s ! c) = Some p)"
    and t: "map (tree_of s) (children_of s 0) = build fmt v"
    by (auto simp: attached_def children_of_def)
  have "\<exists>p<c. Parent (s ! c) = Some p" if "0 < c" "c < length s" for c
    using new [of c] l that by (fastforce simp: linked_def split: option.splits)
  with s(1) l p new t assms show ?thesis
    by (auto simp: parse_def new_Node_make_Node preserves_def make_Node_def Suc_le_eq)
qed

lemma ChildNodes_loop_chain:
  assumes "chain_ok s p cs" "i < length cs"
  shows "ChildNodes_loop s a (Some (cs ! i)) = Some (a @ drop i cs)"
  using assms(2)
proof (induction "length cs - i" arbitrary: i a rule: less_induct)
  case less
  from assms(1) less.prems have nx: "NextSibling (s ! (cs ! i)) = next_in cs i"
    by (simp add: chain_ok_def)
  show ?case
  proof (cases "Suc i < length cs")
    case True
    then have "ChildNodes_loop s (a @ [cs ! i]) (Some (cs ! Suc i))
        = Some ((a @ [cs ! i]) @ drop (Suc i) cs)"
      by (intro less.hyps) auto
    with True nx less.prems show ?thesis
      by (subst ChildNodes_loop.simps) (simp add: next_in_def Cons_nth_drop_Suc)
  next
    case False
    with less.prems have "drop i cs = [cs ! i]"
      by (metis Cons_nth_drop_Suc drop_all not_less)
    with False nx show ?thesis
      by (subst ChildNodes_loop.simps) (simp add: next_in_def ChildNodes_loop.simps)
  qed
qed

lemma ChildNodes_children:
  assumes "linked s" "p < length s"
  shows "ChildNodes s p = Some (children_of s p)"
proof -
  from assms have ch: "chain_ok s p (children_of s p)"
    by (simp add: linked_def)
  show ?thesis
  proof (cases "children_of s p")
    case Nil
    with ch show ?thesis
      by (simp add: ChildNodes_def chain_ok_def first_opt_def ChildNodes_loop.simps)
  next
    case (Cons c cs)
    with ch have "FirstChild (s ! p) = Some (children_of s p ! 0)"
      by (simp add: chain_ok_def first_opt_def)
    with Cons ChildNodes_loop_chain [OF ch, of 0 "[]"] show ?thesis
      by (simp add: ChildNodes_def)
  qed
qed

section \<open>Reading a linked store\<close>

lemma text_content_Tree:
  "text_content (Tree ty d ts) = (if ty = TextNode then d else []) @ concat (map text_content ts)"
proof -
  have "concat (map snd (filter (\<lambda>x. fst x = TextNode) (concat (map preorder ts))))
      = concat (map text_content ts)"
    by (induction ts) (simp_all add: text_content_def)
  then show ?thesis
    by (simp add: text_content_def)
qed

lemma first_opt_nth: "cs \<noteq> [] \<Longrightarrow> first_opt cs = Some (cs ! 0)"
  by (cases cs) (simp_all add: first_opt_def)

lemma output_siblings:
  assumes "chain_ok s p cs"
    and "\<And>c buf. c \<in> set cs \<Longrightarrow> output_walk s (Visit c) buf = Some (buf @ f c)"
    and "i < length cs"
  shows "output_walk s (Siblings (Some (cs ! i))) buf = Some (buf @ concat (map f (drop i cs)))"
  using assms(3)
proof (induction "length cs - i" arbitrary: i buf rule: less_induct)
  case less
  from assms(1) less.prems have nx: "NextSibling (s ! (cs ! i)) = next_in cs i"
    by (simp add: chain_ok_def)
  from less.prems have v: "output_walk s (Visit (cs ! i)) buf = Some (buf @ f (cs ! i))"
    by (intro assms(2)) simp
  show ?case
  proof (cases "Suc i < length cs")
    case True
    then have "output_walk s (Siblings (Some (cs ! Suc i))) (buf @ f (cs ! i))
        = Some ((buf @ f (cs ! i)) @ concat (map f (drop (Suc i) cs)))"
      by (intro less.hyps) auto
    with True nx v less.prems show ?thesis
      by (subst output_walk.simps) (simp add: next_in_def Cons_nth_drop_Suc [symmetric])
  next
    case False
    with less.prems have "drop i cs = [cs ! i]"
      by (metis Cons_nth_drop_Suc drop_all not_less)
    moreover have "output_walk s (Siblings None) b = Some b" for b
      by (subst output_walk.simps) simp
    ultimately show ?thesis
      using False nx v by (subst output_walk.simps) (simp add: next_in_def)
  qed
qed

lemma output_children:
  assumes "chain_ok s p cs"
    and "\<And>c buf. c \<in> set cs \<Longrightarrow> output_walk s (Visit c) buf = Some (buf @ f c)"
  shows "output_walk s (Siblings (FirstChild (s ! p))) buf = Some (buf @ concat (map f cs))"
proof (cases "cs = []")
  case True
  with assms(1) show ?thesis
    by (subst output_walk.simps) (simp add: chain_ok_def first_opt_def)
next
  case False
  with assms(1) have "FirstChild (s ! p) = Some (cs ! 0)"
    by (simp add: chain_ok_def first_opt_nth)
  with False output_siblings [OF assms, of 0 buf] show ?thesis
    by simp
qed

lemma output_visit:
  assumes "linked s" "text_leaves s" "n < length s"
  shows "output_walk s (Visit n) buf = Some (buf @ text_content (tree_of s n))"
  using assms(3)
proof (induction "length s - n" arbitrary: n buf rule: less_induct)
  case less
  show ?case
  proof (cases "Type (s ! n) = TextNode")
    case True
    with assms(2) less.prems have "children_of s n = []"
      by (simp add: text_leaves_def)
    with True show ?thesis
      by (subst output_walk.simps) (simp add: tree_of.simps [of s n] text_content_Tree)
  next
    case False
    from assms(1) less.prems have "chain_ok s n (children_of s n)"
      by (simp add: linked_def)
    then have "output_walk s (Siblings (FirstChild (s ! n))) buf
        = Some (buf @ concat (map (\<lambda>c. text_content (tree_of s c)) (children_of s n)))"
    proof (rule output_children)
      fix c buf assume "c \<in> set (children_of s n)"
      then have "n < c" "c < length s"
        by (simp_all add: children_of_iff)
      then show "output_walk s (Visit c) buf = Some (buf @ text_content (tree_of s c))"
        by (intro less.hyps) auto
    qed
    with False show ?thesis
      by (subst output_walk.simps)
        (simp add: tree_of.simps [of s n] text_content_Tree comp_def)
  qed
qed

lemma outputXML_siblings:
  assumes "chain_ok s p cs"
    and "\<And>c buf. c \<in> set cs \<Longrightarrow> outputXML_walk s (Visit c) buf = Some (buf @ f c)"
    and "i < length cs"
  shows "outputXML_walk s (Siblings (Some (cs ! i))) buf
    = Some (buf @ concat (map f (drop i cs)))"
  using assms(3)
proof (induction "length cs - i" arbitrary: i buf rule: less_induct)
  case less
  from assms(1) less.prems have nx: "NextSibling (s ! (cs ! i)) = next_in cs i"
    by (simp add: chain_ok_def)
  from less.prems have v: "outputXML_walk s (Visit (cs ! i)) buf = Some (buf @ f (cs ! i))"
    by (intro assms(2)) simp
  show ?case
  proof (cases "Suc i < length cs")
    case True
    then have "outputXML_walk s (Siblings (Some (cs ! Suc i))) (buf @ f (cs ! i))
        = Some ((buf @ f (cs ! i)) @ concat (map f (drop (Suc i) cs)))"
      by (intro less.hyps) auto
    with True nx v less.prems show ?thesis
      by (subst outputXML_walk.simps) (simp add: next_in_def Cons_nth_drop_Suc [symmetric])
  next
    case False
    with less.prems have "drop i cs = [cs ! i]"
      by (metis Cons_nth_drop_Suc drop_all not_less)
    moreover have "outputXML_walk s (Siblings None) b = Some b" for b
      by (subst outputXML_walk.simps) simp
    ultimately show ?thesis
      using False nx v by (subst outputXML_walk.simps) (simp add: next_in_def)
  qed
qed

lemma outputXML_children:
  assumes "chain_ok s p cs"
    and "\<And>c buf. c \<in> set cs \<Longrightarrow> outputXML_walk s (Visit c) buf = Some (buf @ f c)"
  shows "outputXML_walk s (Siblings (FirstChild (s ! p))) buf = Some (buf @ concat (map f cs))"
proof (cases "cs = []")
  case True
  with assms(1) show ?thesis
    by (subst outputXML_walk.simps) (simp add: chain_ok_def first_opt_def)
next
  case False
  with assms(1) have "FirstChild (s ! p) = Some (cs ! 0)"
    by (simp add: chain_ok_def first_opt_nth)
  with False outputXML_siblings [OF assms, of 0 buf] show ?thesis
    by simp
qed

lemma outputXML_visit:
  assumes "linked s" "text_leaves s" "no_inner_document s" "n < length s" "0 < n"
  shows "outputXML_walk s (Visit n) buf = Some (buf @ markup (tree_of s n))"
  using assms(4,5)
proof (induction "length s - n" arbitrary: n buf rule: less_induct)
  case less
  show ?case
  proof (cases "Type (s ! n) = TextNode")
    case True
    with assms(2) less.prems have "children_of s n = []"
      by (simp add: text_leaves_def)
    with True show ?thesis
      by (subst outputXML_walk.simps) (simp add: tree_of.simps [of s n])
  next
    case False
    with assms(3) less.prems have el: "Type (s ! n) = ElementNode"
      by (cases "Type (s ! n)") (auto simp: no_inner_document_def)
    from assms(1) less.prems have "chain_ok s n (children_of s n)"
      by (simp add: linked_def)
    then have "outputXML_walk s (Siblings (FirstChild (s ! n))) b
        = Some (b @ concat (map (\<lambda>c. markup (tree_of s c)) (children_of s n)))" for b
    proof (rule outputXML_children)
      fix c buf assume "c \<in> set (children_of s n)"
      then have "n < c" "c < length s"
        by (simp_all add: children_of_iff)
      then show "outputXML_walk s (Visit c) buf = Some (buf @ markup (tree_of s c))"
        by (intro less.hyps) auto
    qed
    with el show ?thesis
      by (subst outputXML_walk.simps)
        (simp add: tree_of.simps [of s n] comp_def tag_name_def)
  qed
qed

lemma OutputXML_markup:
  assumes "linked s" "text_leaves s" "no_inner_document s" "n < length s"
  shows "OutputXML s n
    = Some (xml_declaration @ concat (map markup (subtrees (tree_of s n))))"
proof -
  from assms have "chain_ok s n (children_of s n)"
    by (simp add: linked_def)
  then have "outputXML_walk s (Siblings (FirstChild (s ! n))) xml_declaration
      = Some (xml_declaration @ concat (map (\<lambda>c. markup (tree_of s c)) (children_of s n)))"
  proof (rule outputXML_children)
    fix c buf assume "c \<in> set (children_of s n)"
    then have "0 < c" "c < length s"
      by (simp_all add: children_of_iff)
    with assms show "outputXML_walk s (Visit c) buf = Some (buf @ markup (tree_of s c))"
      by (intro outputXML_visit)
  qed
  then show ?thesis
    by (simp add: OutputXML_def tree_of.simps [of s n] comp_def)
qed

section \<open>Positions of a document\<close>

lemma build_leafy: "list_all leafy (build fmt v)"
  by (induction fmt v rule: build.induct) (simp_all add: list_all_iff)

lemma tree_of_root:
  "tree_of s c = Tree ty d ts \<longleftrightarrow>
     Type (s ! c) = ty \<and> Data (s ! c) = d \<and> map (tree_of s) (children_of s c) = ts"
  by (subst tree_of.simps) simp

lemma leafy_nodes:
  assumes "list_all leafy (map (tree_of s) (children_of s 0))"
    and "\<forall>c. 0 < c \<longrightarrow> c < length s \<longrightarrow> (\<exists>p<c. Parent (s ! c) = Some p)"
    and "0 < n" "n < length s"
  shows "leafy (tree_of s n)"
  using assms(3,4)
proof (induction n rule: less_induct)
  case (less n)
  with assms(2) obtain p where p: "p < n" "Parent (s ! n) = Some p"
    by blast
  with less.prems have mem: "n \<in> set (children_of s p)"
    by (simp add: children_of_iff)
  show ?case
  proof (cases "p = 0")
    case True
    with assms(1) mem show ?thesis
      by (simp add: list_all_iff)
  next
    case False
    with p less.prems have "leafy (tree_of s p)"
      by (intro less.IH) auto
    with mem show ?thesis
      by (subst (asm) tree_of.simps) (simp add: list_all_iff)
  qed
qed

lemma parse_store:
  assumes "Unmarshal b = Inr v"
  shows "\<exists>s. parse fmt Unmarshal b = Some (s, Some 0, None) \<and> linked s \<and> 0 < length s \<and>
     text_leaves s \<and> no_inner_document s \<and>
     Type (s ! 0) = DocumentNode \<and> Data (s ! 0) = [] \<and> Parent (s ! 0) = None \<and>
     (\<forall>c. 0 < c \<longrightarrow> c < length s \<longrightarrow> (\<exists>p<c. Parent (s ! c) = Some p)) \<and>
     map (tree_of s) (children_of s 0) = build fmt v"
proof -
  from parse_tree [where Unmarshal = Unmarshal and b = b and v = v and fmt = fmt, OF assms]
  obtain s where
    s: "parse fmt Unmarshal b = Some (s, Some 0, None)" "linked s" "0 < length s"
      "Type (s ! 0) = DocumentNode" "Data (s ! 0) = []" "Parent (s ! 0) = None"
    and new: "\<forall>c. 0 < c \<longrightarrow> c < length s \<longrightarrow>
        Type (s ! c) \<noteq> DocumentNode \<and> (\<exists>p<c. Parent (s ! c) = Some p)"
    and t: "map (tree_of s) (children_of s 0) = build fmt v"
    by blast
  have "children_of s m = []" if "m < length s" "Type (s ! m) = TextNode" for m
  proof -
    from that s(4) have "0 < m"
      by (cases m) auto
    with that(1) new t have "leafy (tree_of s m)"
      by (intro leafy_nodes) (simp_all add: build_leafy)
    with that(2) show ?thesis
      by (subst (asm) tree_of.simps) simp
  qed
  then have "text_leaves s"
    by (simp add: text_leaves_def)
  moreover from new have "no_inner_document s"
    by (simp add: no_inner_document_def)
  ultimately show ?thesis
    using s new t by auto
qed

lemma index_map_Some: "map_of kvs k = Some v \<Longrightarrow> index_map kvs k = v"
  by (simp add: index_map_def)

lemma node_at_value:
  assumes "linked s"
  shows "n < length s \<Longrightarrow> map (tree_of s) (children_of s n) = build fmt v \<Longrightarrow>
     value_at v p = Some v' \<Longrightarrow>
     \<exists>n'. node_at s n p = Some n' \<and> n' < length s \<and>
       map (tree_of s) (children_of s n') = build fmt v'"
proof (induction p arbitrary: n v)
  case Nil
  then show ?case by simp
next
  case (Cons st p)
  let ?cs = "children_of s n"
  from assms Cons.prems(1) have cn: "ChildNodes s n = Some ?cs"
    by (rule ChildNodes_children)
  have inr: "c < length s" if "c \<in> set ?cs" for c
    using that by (simp add: children_of_iff)
  show ?case
  proof (cases st)
    case (Index i)
    with Cons.prems(3) obtain vs where v: "v = JArray vs" "i < length vs"
      "value_at (vs ! i) p = Some v'"
      by (cases v) (auto split: if_splits)
    from Cons.prems(2) v(1) have m: "map (tree_of s) ?cs = map (\<lambda>v. Tree ElementNode [] (build fmt v)) vs"
      by simp
    then have len: "length ?cs = length vs"
      by (metis length_map)
    with v(2) m have "tree_of s (?cs ! i) = Tree ElementNode [] (build fmt (vs ! i))"
      by (metis nth_map)
    then have "map (tree_of s) (children_of s (?cs ! i)) = build fmt (vs ! i)"
      by (simp add: tree_of_root)
    moreover from len v(2) have "?cs ! i < length s"
      by (intro inr) simp
    ultimately have "\<exists>n'. node_at s (?cs ! i) p = Some n' \<and> n' < length s \<and>
        map (tree_of s) (children_of s n') = build fmt v'"
      using v(3) by (intro Cons.IH) auto
    with Index cn len v(2) show ?thesis
      by simp
  next
    case (Member k)
    with Cons.prems(3) obtain kvs w where v: "v = JObject kvs" "map_of kvs k = Some w"
      "value_at w p = Some v'"
      by (cases v) (auto split: option.splits)
    let ?keys = "sort (map fst kvs)"
    from Cons.prems(2) v(1) have m: "map (tree_of s) ?cs
        = map (\<lambda>k. Tree ElementNode k (build fmt (index_map kvs k))) ?keys"
      by simp
    then have len: "length ?cs = length ?keys"
      by (metis length_map)
    have node: "tree_of s (?cs ! j) = Tree ElementNode (?keys ! j) (build fmt (index_map kvs (?keys ! j)))"
      if "j < length ?keys" for j
      using m that len by (metis (no_types, lifting) nth_map)
    from v(2) have "k \<in> set ?keys"
      by (force dest: map_of_SomeD)
    then obtain j where j: "j < length ?keys" "?keys ! j = k"
      by (metis in_set_conv_nth)
    with node [of j] len have "?cs ! j \<in> set ?cs" "Data (s ! (?cs ! j)) = k"
      by (simp_all add: tree_of_root)
    then have "\<exists>c\<in>set ?cs. Data (s ! c) = k"
      by blast
    then obtain c where c: "find (\<lambda>c. Data (s ! c) = k) ?cs = Some c"
      by (cases "find (\<lambda>c. Data (s ! c) = k) ?cs") (auto simp: find_None_iff)
    then obtain j' where j': "j' < length ?cs" "c = ?cs ! j'" "Data (s ! c) = k"
      by (auto simp: find_Some_iff)
    with node [of j'] len have "map (tree_of s) (children_of s c) = build fmt (index_map kvs k)"
      by (auto simp: tree_of_root)
    with v(2) have "map (tree_of s) (children_of s c) = build fmt w"
      by (simp add: index_map_Some)
    moreover from j' have "c < length s"
      by (intro inr) simp
    ultimately have "\<exists>n'. node_at s c p = Some n' \<and> n' < length s \<and>
        map (tree_of s) (children_of s n') = build fmt v'"
      using v(3) by (intro Cons.IH) auto
    with Member cn c show ?thesis
      by simp
  qed
qed

lemma parse_Some_node:
  assumes "parse fmt Unmarshal b = Some (s, Some doc, err)"
  shows "doc = 0 \<and> err = None \<and> linked s \<and> 0 < length s \<and>
     text_leaves s \<and> no_inner_document s \<and>
     Type (s ! 0) = DocumentNode \<and> Data (s ! 0) = [] \<and> Parent (s ! 0) = None \<and>
     (\<forall>c. 0 < c \<longrightarrow> c < length s \<longrightarrow> (\<exists>p<c. Parent (s ! c) = Some p))"
proof (cases "Unmarshal b")
  case (Inl e)
  with assms show ?thesis
    by (simp add: parse_def)
next
  case (Inr v)
  from parse_store [where Unmarshal = Unmarshal and b = b and v = v and fmt = fmt, OF Inr]
    assms show ?thesis
    by auto
qed

lemma count_list_distinct: "distinct xs \<Longrightarrow> x \<in> set xs \<Longrightarrow> count_list xs x = 1"
  by (induction xs) auto

lemma linked_siblings_inverse:
  assumes "linked s" "a < length s" "b < length s"
  shows "NextSibling (s ! a) = Some b \<longleftrightarrow> PrevSibling (s ! b) = Some a"
proof
  assume nx: "NextSibling (s ! a) = Some b"
  with assms obtain p where p: "Parent (s ! a) = Some p" "p < a"
    by (fastforce simp: linked_def split: option.splits)
  let ?cs = "children_of s p"
  from p assms have "a \<in> set ?cs"
    by (simp add: children_of_iff)
  then obtain i where i: "i < length ?cs" "?cs ! i = a"
    by (auto simp: in_set_conv_nth)
  from assms p have ch: "chain_ok s p ?cs"
    by (simp add: linked_def)
  with i nx have "next_in ?cs i = Some b"
    by (auto simp: chain_ok_def)
  then have "Suc i < length ?cs" "?cs ! Suc i = b"
    by (simp_all add: next_in_def split: if_splits)
  with ch i show "PrevSibling (s ! b) = Some a"
    by (auto simp: chain_ok_def prev_in_def)
next
  assume pv: "PrevSibling (s ! b) = Some a"
  with assms obtain p where p: "Parent (s ! b) = Some p" "p < b"
    by (fastforce simp: linked_def split: option.splits)
  let ?cs = "children_of s p"
  from p assms have "b \<in> set ?cs"
    by (simp add: children_of_iff)
  then obtain i where i: "i < length ?cs" "?cs ! i = b"
    by (auto simp: in_set_conv_nth)
  from assms p have ch: "chain_ok s p ?cs"
    by (simp add: linked_def)
  with i pv have "prev_in ?cs i = Some a"
    by (auto simp: chain_ok_def)
  then have "0 < i" "?cs ! (i - 1) = a"
    by (simp_all add: prev_in_def split: if_splits)
  with ch i show "NextSibling (s ! a) = Some b"
    by (auto simp: chain_ok_def next_in_def dest!: spec [of _ "i - 1"])
qed

lemma root_of_tree_of [simp]:
  "root_type (tree_of s c) = Type (s ! c)" "root_data (tree_of s c) = Data (s ! c)"
  "subtrees (tree_of s c) = map (tree_of s) (children_of s c)"
  by (simp_all add: tree_of.simps [of s c])

lemma map_insort_key: "map f (insort_key f x xs) = insort (f x) (map f xs)"
  by (induction xs) simp_all

lemma map_sort_key: "map f (sort_key f xs) = sort (map f xs)"
  by (induction xs) (simp_all add: map_insort_key)

lemma index_map_fst:
  assumes "distinct (map fst kvs)" "kv \<in> set kvs"
  shows "index_map kvs (fst kv) = snd kv"
proof -
  from assms have "map_of kvs (fst kv) = Some (snd kv)"
    by (intro map_of_is_SomeI) simp_all
  then show ?thesis
    by (simp add: index_map_def)
qed

lemma sorted_members:
  assumes "distinct (map fst kvs)"
  shows "map (\<lambda>k. F (index_map kvs k)) (sort (map fst kvs))
    = map (\<lambda>kv. F (snd kv)) (sort_key fst kvs)"
proof -
  have "map (\<lambda>k. F (index_map kvs k)) (sort (map fst kvs))
      = map (\<lambda>kv. F (index_map kvs (fst kv))) (sort_key fst kvs)"
    by (simp add: map_sort_key [symmetric] comp_def)
  also have "\<dots> = map (\<lambda>kv. F (snd kv)) (sort_key fst kvs)"
    using assms by (intro map_cong refl) (simp add: index_map_fst)
  finally show ?thesis .
qed

lemma wf_json_index_map: "wf_json (JObject kvs) \<Longrightarrow> wf_json (index_map kvs k)"
  by (auto simp: index_map_def list_all_iff split: option.splits dest!: map_of_SomeD)

lemma build_text:
  "wf_json v \<Longrightarrow> concat (map text_content (build fmt v)) = canonical_text fmt v"
proof (induction fmt v rule: build.induct)
  case (5 fmt vs)
  then have "map (\<lambda>v. concat (map text_content (build fmt v))) vs = map (canonical_text fmt) vs"
    by (intro map_cong refl) (simp add: list_all_iff)
  then have "concat (map (\<lambda>v. concat (map text_content (build fmt v))) vs)
      = concat (map (canonical_text fmt) vs)"
    by (rule arg_cong)
  then show ?case
    by (simp add: comp_def text_content_Tree)
next
  case (6 fmt kvs)
  have "map (\<lambda>k. concat (map text_content (build fmt (index_map kvs k)))) (sort (map fst kvs))
      = map (\<lambda>k. canonical_text fmt (index_map kvs k)) (sort (map fst kvs))"
    using 6 by (intro map_cong refl) (simp add: wf_json_index_map del: wf_json.simps)
  also have "\<dots> = map (\<lambda>kv. canonical_text fmt (snd kv)) (sort_key fst kvs)"
    using "6.prems" by (intro sorted_members) simp
  finally have "concat (map (\<lambda>k. concat (map text_content (build fmt (index_map kvs k))))
        (sort (map fst kvs)))
      = concat (map (\<lambda>kv. canonical_text fmt (snd kv)) (sort_key fst kvs))"
    by (rule arg_cong)
  then show ?case
    by (simp add: comp_def text_content_Tree)
qed (simp_all add: text_content_Tree)

lemma wf_json_value_at: "wf_json v \<Longrightarrow> value_at v p = Some v' \<Longrightarrow> wf_json v'"
proof (induction v p rule: value_at.induct)
  case (3 kvs k p)
  then show ?case
    by (auto simp: list_all_iff split: option.splits dest!: map_of_SomeD)
qed (auto simp: list_all_iff split: if_splits)

lemma sort_distinct_keys:
  "distinct xs \<Longrightarrow> sort xs = sorted_list_of_set (set xs)"
  by (simp add: sorted_list_of_set_sort_remdups distinct_remdups_id)

lemmas example_defs = example_FormatFloat_def example_object_def example_array_def
  example_nested_def example_Unmarshal_def example_ReadAll_def

lemmas build_defs = parse_def new_Node_def make_Node_def addNode_def Let_def index_map_def
  FormatBool_def

section \<open>The claims\<close>

text \<open>
  Claim C1. Take any object anywhere in a decoded document, at the position \<open>p\<close>. The
  children of the node the object is attached to, read off the sibling chain by
  \<^verbatim>\<open>ChildNodes\<close>, are element nodes, and their names are exactly the keys of the object
  in strictly ascending (bytewise lexicographic) order. The right-hand side depends on
  the set of the keys only, so the order in which the map enumerates its entries has
  no influence.
\<close>

theorem object_children_sorted:
  assumes "Unmarshal b = Inr v" "wf_json v" "value_at v p = Some (JObject kvs)"
  shows "\<exists>s doc n cs. parse fmt Unmarshal b = Some (s, Some doc, None) \<and>
     node_at s doc p = Some n \<and> ChildNodes s n = Some cs \<and>
     map (\<lambda>c. Data (s ! c)) cs = sorted_list_of_set (fst ` set kvs) \<and>
     sorted_wrt (<) (map (\<lambda>c. Data (s ! c)) cs) \<and>
     list_all (\<lambda>c. Type (s ! c) = ElementNode) cs"
proof -
  from parse_store [where Unmarshal = Unmarshal and b = b and v = v and fmt = fmt, OF assms(1)]
  obtain s where s: "parse fmt Unmarshal b = Some (s, Some 0, None)" "linked s" "0 < length s"
    "map (tree_of s) (children_of s 0) = build fmt v"
    by blast
  from node_at_value [OF s(2,3,4) assms(3)] obtain n where
    n: "node_at s 0 p = Some n" "n < length s"
      "map (tree_of s) (children_of s n) = build fmt (JObject kvs)"
    by blast
  let ?cs = "children_of s n"
  from n(3) have "map root_data (map (tree_of s) ?cs)
      = map root_data (map (\<lambda>k. Tree ElementNode k (build fmt (index_map kvs k)))
          (sort (map fst kvs)))"
    "map root_type (map (tree_of s) ?cs)
      = map root_type (map (\<lambda>k. Tree ElementNode k (build fmt (index_map kvs k)))
          (sort (map fst kvs)))"
    by simp_all
  then have "map (\<lambda>c. Data (s ! c)) ?cs = sort (map fst kvs)"
    "map (\<lambda>c. Type (s ! c)) ?cs = map (\<lambda>k. ElementNode) (sort (map fst kvs))"
    by (simp_all add: comp_def)
  moreover from assms(2,3) have "distinct (map fst kvs)"
    using wf_json_value_at by fastforce
  moreover have "list_all (\<lambda>c. Type (s ! c) = ElementNode) ?cs"
    if "map (\<lambda>c. Type (s ! c)) ?cs = map (\<lambda>k. ElementNode) (sort (map fst kvs))"
    using that by (auto simp: list_all_iff dest!: map_eq_imp_length_eq
        arg_cong [where f = set])
  ultimately show ?thesis
    using s(1) n(1) ChildNodes_children [OF s(2) n(2)]
    by (simp add: sort_distinct_keys)
qed

text \<open>An instance of the theorem on an example input.\<close>

theorem object_children_sorted_witness:
  "\<exists>s doc n cs. parse example_FormatFloat example_Unmarshal ''object'' = Some (s, Some doc, None) \<and>
     node_at s doc [] = Some n \<and> ChildNodes s n = Some cs \<and>
     map (\<lambda>c. Data (s ! c)) cs = [''age'', ''city'', ''name''] \<and>
     sorted_wrt (<) (map (\<lambda>c. Data (s ! c)) cs) \<and>
     list_all (\<lambda>c. Type (s ! c) = ElementNode) cs"
proof -
  have "sorted_list_of_set (fst ` set [(''name'', JString ''John''), (''age'', JNumber ''31''),
       (''city'', JString ''New York'')]) = [''age'', ''city'', ''name'']"
    by (simp add: sorted_list_of_set_sort_remdups [symmetric])
  then show ?thesis
    using object_children_sorted [of example_Unmarshal "''object''" example_object "[]"
      "[(''name'', JString ''John''), (''age'', JNumber ''31''),
        (''city'', JString ''New York'')]" example_FormatFloat]
    by (simp add: example_defs)
qed

text \<open>
  Claim C2. When the document is an array, the document node has one child per array
  element, and the \<^verbatim>\<open>InnerText\<close> of the \<open>i\<close>-th child is the canonical text of the
  \<open>i\<close>-th element: the children follow the order of the array.
\<close>

theorem array_document_children:
  assumes "Unmarshal b = Inr (JArray vs)" "wf_json (JArray vs)"
  shows "\<exists>s doc cs. parse fmt Unmarshal b = Some (s, Some doc, None) \<and>
     ChildNodes s doc = Some cs \<and> length cs = length vs \<and>
     (\<forall>i<length vs. InnerText s (cs ! i) = Some (canonical_text fmt (vs ! i)))"
proof -
  from parse_store [where Unmarshal = Unmarshal and b = b and v = "JArray vs" and fmt = fmt,
      OF assms(1)]
  obtain s where s: "parse fmt Unmarshal b = Some (s, Some 0, None)" "linked s" "0 < length s"
    "text_leaves s" "map (tree_of s) (children_of s 0) = build fmt (JArray vs)"
    by blast
  let ?cs = "children_of s 0"
  from s(5) have m: "map (tree_of s) ?cs = map (\<lambda>v. Tree ElementNode [] (build fmt v)) vs"
    by simp
  then have len: "length ?cs = length vs"
    by (metis length_map)
  have "InnerText s (?cs ! i) = Some (canonical_text fmt (vs ! i))" if i: "i < length vs" for i
  proof -
    from i len have "?cs ! i \<in> set ?cs" by simp
    then have "?cs ! i < length s"
      by (simp add: children_of_iff)
    with s(2,4) have "InnerText s (?cs ! i) = Some (text_content (tree_of s (?cs ! i)))"
      using output_visit [of s "?cs ! i" "[]"] by (simp add: InnerText_def)
    moreover from m i len have "tree_of s (?cs ! i) = Tree ElementNode [] (build fmt (vs ! i))"
      by (metis nth_map)
    moreover from assms(2) i have "wf_json (vs ! i)"
      by (simp add: list_all_length)
    ultimately show ?thesis
      by (simp add: text_content_Tree build_text)
  qed
  with s(1) len ChildNodes_children [OF s(2,3)] show ?thesis
    by simp
qed

text \<open>An instance of the theorem on an example input.\<close>

theorem array_document_children_witness:
  "\<exists>s doc cs. parse example_FormatFloat example_Unmarshal ''array'' = Some (s, Some doc, None) \<and>
     ChildNodes s doc = Some cs \<and> length cs = 6 \<and>
     InnerText s (cs ! 0) = Some ''1'' \<and> InnerText s (cs ! 1) = Some ''2'' \<and>
     InnerText s (cs ! 2) = Some ''3'' \<and> InnerText s (cs ! 3) = Some ''4'' \<and>
     InnerText s (cs ! 4) = Some ''5'' \<and> InnerText s (cs ! 5) = Some ''6''"
proof -
  let ?vs = "[JNumber ''1'', JNumber ''2'', JNumber ''3'', JNumber ''4'', JNumber ''5'',
       JNumber ''6'']"
  have "example_Unmarshal ''array'' = Inr (JArray ?vs)" "wf_json (JArray ?vs)"
    by (simp_all add: example_defs)
  from array_document_children [where Unmarshal = example_Unmarshal and b = "''array''"
      and fmt = example_FormatFloat, OF this] obtain s doc cs where
    s: "parse example_FormatFloat example_Unmarshal ''array'' = Some (s, Some doc, None)"
      "ChildNodes s doc = Some cs" "length cs = length ?vs"
    and t: "\<And>i. i < length ?vs \<Longrightarrow>
      InnerText s (cs ! i) = Some (canonical_text example_FormatFloat (?vs ! i))"
    by blast
  from t [of 0] t [of 1] t [of 2] t [of 3] t [of 4] t [of 5]
  have "InnerText s (cs ! 0) = Some ''1'' \<and> InnerText s (cs ! 1) = Some ''2'' \<and>
     InnerText s (cs ! 2) = Some ''3'' \<and> InnerText s (cs ! 3) = Some ''4'' \<and>
     InnerText s (cs ! 4) = Some ''5'' \<and> InnerText s (cs ! 5) = Some ''6''"
    by (simp add: example_defs)
  with s show ?thesis
    by auto
qed

text \<open>
  Claim C3. A null produces no node and no error, wherever it stands: \<open>parseValue\<close>
  returns the store it was given, whatever the node and the level it is called with,
  and for a null at the position \<open>p\<close> of a document (the document itself, the value of
  an object member or an array element) the node that the value at \<open>p\<close> is attached to
  has no child after the parse. The element that an array or an object creates for the
  slot or the key is the container's node; nothing stands below it for the null.
\<close>

theorem null_produces_no_node:
  assumes "Unmarshal b = Inr v" "value_at v p = Some JNull"
  shows "(\<exists>s doc n. parse fmt Unmarshal b = Some (s, Some doc, None) \<and>
       node_at s doc p = Some n \<and> ChildNodes s n = Some []) \<and>
     (\<forall>top' lvl s0. parseValue fmt JNull top' lvl s0 = Some s0)"
proof -
  from parse_store [where Unmarshal = Unmarshal and b = b and v = v and fmt = fmt, OF assms(1)]
  obtain s where s: "parse fmt Unmarshal b = Some (s, Some 0, None)" "linked s" "0 < length s"
    "map (tree_of s) (children_of s 0) = build fmt v"
    by blast
  from node_at_value [OF s(2,3,4) assms(2)] obtain n where
    n: "node_at s 0 p = Some n" "n < length s"
      "map (tree_of s) (children_of s n) = build fmt JNull"
    by blast
  from n(3) have "children_of s n = []"
    by simp
  with s(1) n(1) ChildNodes_children [OF s(2) n(2)] show ?thesis
    by simp
qed

text \<open>An instance of the theorem on an example input.\<close>

theorem null_produces_no_node_witness:
  "(\<exists>s doc n. parse example_FormatFloat example_Unmarshal ''nested'' = Some (s, Some doc, None) \<and>
       node_at s doc [Member ''cars'', Index 0] = Some n \<and> ChildNodes s n = Some []) \<and>
   (\<exists>s doc. parse example_FormatFloat example_Unmarshal ''null'' = Some (s, Some doc, None) \<and>
       ChildNodes s doc = Some [])"
proof -
  have "\<exists>s doc n. parse example_FormatFloat example_Unmarshal ''nested'' = Some (s, Some doc, None) \<and>
       node_at s doc [Member ''cars'', Index 0] = Some n \<and> ChildNodes s n = Some []"
    using null_produces_no_node [of example_Unmarshal "''nested''" example_nested
        "[Member ''cars'', Index 0]" example_FormatFloat]
    by (simp add: example_defs)
  moreover have "\<exists>s doc. parse example_FormatFloat example_Unmarshal ''null'' = Some (s, Some doc, None) \<and>
       ChildNodes s doc = Some []"
    using null_produces_no_node [of example_Unmarshal "''null''" JNull "[]" example_FormatFloat]
    by (simp add: example_defs)
  ultimately show ?thesis
    by blast
qed

text \<open>
  Claim C4. After a parse the pointer fields agree. Every node but the document node
  has a parent, and the walk along the parent's \<^verbatim>\<open>FirstChild\<close>/\<^verbatim>\<open>NextSibling\<close> chain
  returns and meets the node exactly once. For every node \<open>p\<close> the chain holds exactly
  the nodes whose \<^verbatim>\<open>Parent\<close> is \<open>p\<close>, it starts at \<^verbatim>\<open>FirstChild\<close> and ends at
  \<^verbatim>\<open>LastChild\<close>, and \<^verbatim>\<open>PrevSibling\<close> and \<^verbatim>\<open>NextSibling\<close> of a node on the chain are its
  neighbours on the chain. \<^verbatim>\<open>NextSibling\<close> and \<^verbatim>\<open>PrevSibling\<close> are inverse to each other.
\<close>

theorem pointers_consistent:
  assumes "parse fmt Unmarshal b = Some (s, Some doc, err)"
  shows "(\<forall>n<length s. n \<noteq> doc \<longrightarrow>
        (\<exists>p cs. p < length s \<and> Parent (s ! n) = Some p \<and> ChildNodes s p = Some cs \<and>
           count_list cs n = 1)) \<and>
     (\<forall>p<length s. \<exists>cs. ChildNodes s p = Some cs \<and>
        set cs = {c. c < length s \<and> Parent (s ! c) = Some p} \<and>
        FirstChild (s ! p) = first_opt cs \<and> LastChild (s ! p) = last_opt cs \<and>
        (\<forall>i<length cs. PrevSibling (s ! (cs ! i)) = prev_in cs i \<and>
           NextSibling (s ! (cs ! i)) = next_in cs i)) \<and>
     (\<forall>a<length s. \<forall>b<length s.
        NextSibling (s ! a) = Some b \<longleftrightarrow> PrevSibling (s ! b) = Some a)"
proof -
  from parse_Some_node [OF assms] have doc: "doc = 0" and l: "linked s"
    and par: "\<And>c. 0 < c \<Longrightarrow> c < length s \<Longrightarrow> \<exists>p<c. Parent (s ! c) = Some p"
    by simp_all
  have up: "p < c" if "c < length s" "Parent (s ! c) = Some p" for c p
    using l that by (fastforce simp: linked_def split: option.splits)
  have "\<exists>p cs. p < length s \<and> Parent (s ! n) = Some p \<and> ChildNodes s p = Some cs \<and>
      count_list cs n = 1" if "n < length s" "n \<noteq> doc" for n
  proof -
    from that doc par [of n] obtain p where p: "p < n" "Parent (s ! n) = Some p"
      by auto
    with that have "n \<in> set (children_of s p)"
      by (simp add: children_of_iff)
    then have "count_list (children_of s p) n = 1"
      by (simp add: count_list_distinct children_of_distinct)
    moreover from p that have "ChildNodes s p = Some (children_of s p)"
      by (intro ChildNodes_children l) simp
    ultimately show ?thesis
      using p that by auto
  qed
  moreover have "\<exists>cs. ChildNodes s p = Some cs \<and>
      set cs = {c. c < length s \<and> Parent (s ! c) = Some p} \<and>
      FirstChild (s ! p) = first_opt cs \<and> LastChild (s ! p) = last_opt cs \<and>
      (\<forall>i<length cs. PrevSibling (s ! (cs ! i)) = prev_in cs i \<and>
         NextSibling (s ! (cs ! i)) = next_in cs i)" if "p < length s" for p
  proof -
    from l that have "chain_ok s p (children_of s p)"
      by (simp add: linked_def)
    moreover have "set (children_of s p) = {c. c < length s \<and> Parent (s ! c) = Some p}"
      using up by (auto simp: children_of_iff)
    ultimately show ?thesis
      using ChildNodes_children [OF l that] by (simp add: chain_ok_def)
  qed
  ultimately show ?thesis
    using linked_siblings_inverse [OF l] by blast
qed

text \<open>An instance of the theorem on an example input.\<close>

theorem pointers_consistent_witness:
  "\<exists>s. parse example_FormatFloat example_Unmarshal ''nested'' = Some (s, Some 0, None) \<and>
     length s = 7 \<and> ChildNodes s 1 = Some [2, 3] \<and>
     FirstChild (s ! 1) = Some 2 \<and> LastChild (s ! 1) = Some 3 \<and>
     PrevSibling (s ! 2) = None \<and> NextSibling (s ! 2) = Some 3 \<and>
     PrevSibling (s ! 3) = Some 2 \<and> NextSibling (s ! 3) = None \<and>
     Parent (s ! 2) = Some 1 \<and> Parent (s ! 3) = Some 1"
proof -
  have "\<exists>s. parse example_FormatFloat example_Unmarshal ''nested'' = Some (s, Some 0, None) \<and>
      length s = 7 \<and> ChildNodes s 1 = Some [2, 3]"
    by (simp add: example_defs build_defs ChildNodes_def ChildNodes_loop.simps)
  then obtain s where
    s: "parse example_FormatFloat example_Unmarshal ''nested'' = Some (s, Some 0, None)"
      "length s = 7" "ChildNodes s 1 = Some [2, 3]"
    by blast
  from pointers_consistent [OF s(1)] s(2) have "\<exists>cs. ChildNodes s 1 = Some cs \<and>
        set cs = {c. c < length s \<and> Parent (s ! c) = Some 1} \<and>
        FirstChild (s ! 1) = first_opt cs \<and> LastChild (s ! 1) = last_opt cs \<and>
        (\<forall>i<length cs. PrevSibling (s ! (cs ! i)) = prev_in cs i \<and>
           NextSibling (s ! (cs ! i)) = next_in cs i)"
    by simp
  with s(3) have c: "set [2, 3] = {c. c < length s \<and> Parent (s ! c) = Some 1}"
    "FirstChild (s ! 1) = first_opt [2, 3]" "LastChild (s ! 1) = last_opt [2, 3]"
    "\<And>i. i < 2 \<Longrightarrow> PrevSibling (s ! ([2, 3] ! i)) = prev_in [2, 3] i \<and>
       NextSibling (s ! ([2, 3] ! i)) = next_in [2, 3] i"
    by auto
  from c(1) have "\<forall>x. x \<in> set [2, 3] \<longrightarrow> Parent (s ! x) = Some 1"
    by blast
  then have "Parent (s ! 2) = Some 1" "Parent (s ! 3) = Some 1"
    by simp_all
  with s c(2,3) c(4) [of 0] c(4) [of 1] show ?thesis
    by (simp add: first_opt_def last_opt_def prev_in_def next_in_def)
qed

text \<open>
  Claim C6. For every node \<open>n\<close> of a parsed document \<^verbatim>\<open>InnerText\<close> returns, and its
  result is the concatenation of the data of the text nodes of the tree below \<open>n\<close> in
  depth-first pre-order, with nothing in between; for a text node it is the node's own
  data. The function only reads the store. The children of the tree are the children
  that \<^verbatim>\<open>ChildNodes\<close> finds.
\<close>

theorem InnerText_preorder:
  assumes "parse fmt Unmarshal b = Some (s, Some doc, err)" "n < length s"
  shows "InnerText s n = Some (text_content (tree_of s n)) \<and>
     (Type (s ! n) = TextNode \<longrightarrow> InnerText s n = Some (Data (s ! n))) \<and>
     ChildNodes s n = Some (children_of s n)"
proof -
  from parse_Some_node [OF assms(1)] have l: "linked s" and t: "text_leaves s"
    by simp_all
  from output_visit [OF l t assms(2), of "[]"]
  have it: "InnerText s n = Some (text_content (tree_of s n))"
    by (simp add: InnerText_def)
  moreover have "InnerText s n = Some (Data (s ! n))" if "Type (s ! n) = TextNode"
    using that by (simp add: InnerText_def) (subst output_walk.simps, simp)
  ultimately show ?thesis
    using ChildNodes_children [OF l assms(2)] by simp
qed

text \<open>An instance of the theorem on an example input.\<close>

theorem InnerText_preorder_witness:
  "\<exists>s. parse example_FormatFloat example_Unmarshal ''object'' = Some (s, Some 0, None) \<and>
     length s = 7 \<and> InnerText s 0 = Some ''31New YorkJohn'' \<and>
     text_content (tree_of s 0) = ''31New YorkJohn'' \<and> InnerText s 6 = Some ''John''"
proof -
  have "\<exists>s. parse example_FormatFloat example_Unmarshal ''object'' = Some (s, Some 0, None) \<and>
      length s = 7 \<and> InnerText s 0 = Some ''31New YorkJohn'' \<and> InnerText s 6 = Some ''John''"
    by (simp add: example_defs build_defs InnerText_def output_walk.simps)
  then obtain s where
    s: "parse example_FormatFloat example_Unmarshal ''object'' = Some (s, Some 0, None)"
      "length s = 7" "InnerText s 0 = Some ''31New YorkJohn''" "InnerText s 6 = Some ''John''"
    by blast
  from InnerText_preorder [OF s(1), of 0] s show ?thesis
    by auto
qed

text \<open>
  Claim C7. For every node \<open>n\<close> of a parsed document \<^verbatim>\<open>OutputXML\<close> returns the fixed
  declaration, the 21 characters \<^verbatim>\<open><?xml version="1.0"?>\<close>, followed by the markup of the
  children of \<open>n\<close> in order: one pair
  \<^verbatim>\<open><name>...</name>\<close> around the markup of its children for an element with a name,
  one pair \<^verbatim>\<open><element>...</element>\<close> for an element without a name, and the raw data
  for a text node.
\<close>

theorem OutputXML_renders:
  assumes "parse fmt Unmarshal b = Some (s, Some doc, err)" "n < length s"
  shows "OutputXML s n
       = Some (''<?xml version=\"1.0\"?>'' @ concat (map markup (subtrees (tree_of s n)))) \<and>
     ChildNodes s n = Some (children_of s n)"
proof -
  from parse_Some_node [OF assms(1)] have "linked s" "text_leaves s" "no_inner_document s"
    by simp_all
  with assms(2) have "OutputXML s n
      = Some (xml_declaration @ concat (map markup (subtrees (tree_of s n))))"
    "ChildNodes s n = Some (children_of s n)"
    by (simp_all add: OutputXML_markup ChildNodes_children)
  moreover have "xml_declaration = ''<?xml version=\"1.0\"?>''"
    by (simp add: xml_declaration_def)
  ultimately show ?thesis
    by simp
qed

text \<open>An instance of the theorem on an example input.\<close>

theorem OutputXML_renders_witness:
  "\<exists>s. parse example_FormatFloat example_Unmarshal ''nested'' = Some (s, Some 0, None) \<and>
     length s = 7 \<and>
     OutputXML s 0 = Some (''<?xml version=\"1.0\"?>'' @
       ''<cars><element></element><element><name>Ford</name></element></cars><owner></owner>'') \<and>
     concat (map markup (subtrees (tree_of s 0))) =
       ''<cars><element></element><element><name>Ford</name></element></cars><owner></owner>''"
proof -
  have "\<exists>s. parse example_FormatFloat example_Unmarshal ''nested'' = Some (s, Some 0, None) \<and>
      length s = 7 \<and>
      OutputXML s 0 = Some (''<?xml version=\"1.0\"?>'' @
       ''<cars><element></element><element><name>Ford</name></element></cars><owner></owner>'')"
    by (simp add: example_defs build_defs OutputXML_def outputXML_walk.simps
        xml_declaration_def)
  then obtain s where
    s: "parse example_FormatFloat example_Unmarshal ''nested'' = Some (s, Some 0, None)"
      "length s = 7"
      "OutputXML s 0 = Some (''<?xml version=\"1.0\"?>'' @
       ''<cars><element></element><element><name>Ford</name></element></cars><owner></owner>'')"
    by blast
  from OutputXML_renders [OF s(1), of 0] s show ?thesis
    by auto
qed

text \<open>
  Claim C8. A parse that returns a node returns the only document node of the store.
  Its name is empty, it has no parent and no siblings, and every other node has a
  parent that was allocated before it, so the document node is the root of all nodes.
\<close>

theorem single_document_root:
  assumes "parse fmt Unmarshal b = Some (s, Some doc, err)"
  shows "doc < length s \<and> Type (s ! doc) = DocumentNode \<and>
     (\<forall>n<length s. Type (s ! n) = DocumentNode \<longrightarrow> n = doc) \<and>
     Data (s ! doc) = [] \<and> Parent (s ! doc) = None \<and>
     PrevSibling (s ! doc) = None \<and> NextSibling (s ! doc) = None \<and>
     (\<forall>n<length s. n \<noteq> doc \<longrightarrow> (\<exists>p<n. Parent (s ! n) = Some p))"
proof -
  from parse_Some_node [OF assms] have doc: "doc = 0" and l: "linked s" and len: "0 < length s"
    and nd: "no_inner_document s"
    and root: "Type (s ! 0) = DocumentNode" "Data (s ! 0) = []" "Parent (s ! 0) = None"
    and par: "\<forall>c. 0 < c \<longrightarrow> c < length s \<longrightarrow> (\<exists>p<c. Parent (s ! c) = Some p)"
    by simp_all
  from l len root(3) have "PrevSibling (s ! 0) = None" "NextSibling (s ! 0) = None"
    by (auto simp: linked_def dest!: spec [of _ 0])
  moreover from nd have "\<forall>n<length s. Type (s ! n) = DocumentNode \<longrightarrow> n = 0"
    by (auto simp: no_inner_document_def)
  ultimately show ?thesis
    using doc len root par by simp
qed

text \<open>An instance of the theorem on an example input.\<close>

theorem single_document_root_witness:
  "\<exists>s. parse example_FormatFloat example_Unmarshal ''object'' = Some (s, Some 0, None) \<and>
     length s = 7 \<and> Type (s ! 0) = DocumentNode \<and> Data (s ! 0) = [] \<and>
     Parent (s ! 0) = None \<and> PrevSibling (s ! 0) = None \<and> NextSibling (s ! 0) = None \<and>
     Type (s ! 1) = ElementNode \<and> Type (s ! 2) = TextNode"
proof -
  have "\<exists>s. parse example_FormatFloat example_Unmarshal ''object'' = Some (s, Some 0, None) \<and>
      length s = 7 \<and> Type (s ! 1) = ElementNode \<and> Type (s ! 2) = TextNode"
    by (simp add: example_defs build_defs)
  then obtain s where
    s: "parse example_FormatFloat example_Unmarshal ''object'' = Some (s, Some 0, None)"
      "length s = 7" "Type (s ! 1) = ElementNode" "Type (s ! 2) = TextNode"
    by blast
  from single_document_root [OF s(1)] s show ?thesis
    by blast
qed

text \<open>
  Claim C9. \<^verbatim>\<open>Parse\<close> returns a nil node with an error exactly when reading or decoding
  fails. It then returns the error of the reader or of the decoder and has allocated no
  node at all. When both succeed it returns a document node and a nil error; it never
  panics.
\<close>

theorem Parse_error_iff_failure:
  "((\<exists>s e. Parse fmt ReadAll Unmarshal r = Some (s, None, Some e)) \<longleftrightarrow>
      (snd (ReadAll r) \<noteq> None \<or> isl (Unmarshal (fst (ReadAll r))))) \<and>
   (\<forall>e. snd (ReadAll r) = Some e \<longrightarrow>
      Parse fmt ReadAll Unmarshal r = Some ([], None, Some e)) \<and>
   (\<forall>e. snd (ReadAll r) = None \<and> Unmarshal (fst (ReadAll r)) = Inl e \<longrightarrow>
      Parse fmt ReadAll Unmarshal r = Some ([], None, Some e)) \<and>
   (\<forall>v. snd (ReadAll r) = None \<and> Unmarshal (fst (ReadAll r)) = Inr v \<longrightarrow>
      (\<exists>s doc. Parse fmt ReadAll Unmarshal r = Some (s, Some doc, None) \<and>
         doc < length s \<and> Type (s ! doc) = DocumentNode))"
proof (cases "ReadAll r")
  case (Pair bs e)
  show ?thesis
  proof (cases e)
    case (Some x)
    with Pair show ?thesis
      by (simp add: Parse_def)
  next
    case None
    show ?thesis
    proof (cases "Unmarshal bs")
      case (Inl x)
      with Pair None show ?thesis
        by (simp add: Parse_def parse_def)
    next
      case (Inr v)
      from parse_store [where Unmarshal = Unmarshal and b = bs and v = v and fmt = fmt, OF Inr]
      obtain s where "parse fmt Unmarshal bs = Some (s, Some 0, None)" "0 < length s"
        "Type (s ! 0) = DocumentNode"
        by blast
      with Pair None Inr show ?thesis
        by (simp add: Parse_def)
    qed
  qed
qed

text \<open>An instance of the theorem on an example input.\<close>

theorem Parse_error_iff_failure_witness:
  "Parse example_FormatFloat example_ReadAll example_Unmarshal None
     = Some ([], None, Some ''unexpected EOF'') \<and>
   Parse example_FormatFloat example_ReadAll example_Unmarshal (Some ''{'')
     = Some ([], None, Some ''invalid character'') \<and>
   (\<exists>s doc. Parse example_FormatFloat example_ReadAll example_Unmarshal (Some ''null'')
       = Some (s, Some doc, None) \<and> doc < length s \<and> Type (s ! doc) = DocumentNode)"
  using Parse_error_iff_failure [of example_FormatFloat example_ReadAll example_Unmarshal None]
    Parse_error_iff_failure [of example_FormatFloat example_ReadAll example_Unmarshal "Some ''{''"]
    Parse_error_iff_failure [of example_FormatFloat example_ReadAll example_Unmarshal
      "Some ''null''"]
  by (simp add: example_defs)

text \<open>
  Claim C10. Take any array anywhere in a decoded document, at the position \<open>p\<close>. The
  node the array is attached to has exactly one child per array element, each an
  element node with an empty name, also for an element that is null: the child of a
  null element is there and has no children.
\<close>

theorem array_element_wrappers:
  assumes "Unmarshal b = Inr v" "value_at v p = Some (JArray vs)"
  shows "\<exists>s doc n cs. parse fmt Unmarshal b = Some (s, Some doc, None) \<and>
     node_at s doc p = Some n \<and> ChildNodes s n = Some cs \<and> length cs = length vs \<and>
     (\<forall>i<length vs. Type (s ! (cs ! i)) = ElementNode \<and> Data (s ! (cs ! i)) = [] \<and>
        (vs ! i = JNull \<longrightarrow> ChildNodes s (cs ! i) = Some []))"
proof -
  from parse_store [where Unmarshal = Unmarshal and b = b and v = v and fmt = fmt, OF assms(1)]
  obtain s where s: "parse fmt Unmarshal b = Some (s, Some 0, None)" "linked s" "0 < length s"
    "map (tree_of s) (children_of s 0) = build fmt v"
    by blast
  from node_at_value [OF s(2,3,4) assms(2)] obtain n where
    n: "node_at s 0 p = Some n" "n < length s"
      "map (tree_of s) (children_of s n) = build fmt (JArray vs)"
    by blast
  let ?cs = "children_of s n"
  from n(3) have m: "map (tree_of s) ?cs = map (\<lambda>v. Tree ElementNode [] (build fmt v)) vs"
    by simp
  then have len: "length ?cs = length vs"
    by (metis length_map)
  have "Type (s ! (?cs ! i)) = ElementNode \<and> Data (s ! (?cs ! i)) = [] \<and>
      (vs ! i = JNull \<longrightarrow> ChildNodes s (?cs ! i) = Some [])" if i: "i < length vs" for i
  proof -
    from i len have "?cs ! i \<in> set ?cs" by simp
    then have r: "?cs ! i < length s"
      by (simp add: children_of_iff)
    from m i len have "tree_of s (?cs ! i) = Tree ElementNode [] (build fmt (vs ! i))"
      by (metis nth_map)
    then have "Type (s ! (?cs ! i)) = ElementNode" "Data (s ! (?cs ! i)) = []"
      "map (tree_of s) (children_of s (?cs ! i)) = build fmt (vs ! i)"
      by (simp_all add: tree_of_root)
    with ChildNodes_children [OF s(2) r] show ?thesis
      by auto
  qed
  with s(1) n(1) len ChildNodes_children [OF s(2) n(2)] show ?thesis
    by simp
qed

text \<open>An instance of the theorem on an example input.\<close>

theorem array_element_wrappers_witness:
  "\<exists>s doc n cs. parse example_FormatFloat example_Unmarshal ''nested'' = Some (s, Some doc, None) \<and>
     node_at s doc [Member ''cars''] = Some n \<and> ChildNodes s n = Some cs \<and> length cs = 2 \<and>
     Type (s ! (cs ! 0)) = ElementNode \<and> Data (s ! (cs ! 0)) = [] \<and>
     ChildNodes s (cs ! 0) = Some [] \<and>
     Type (s ! (cs ! 1)) = ElementNode \<and> Data (s ! (cs ! 1)) = []"
proof -
  let ?vs = "[JNull, JObject [(''name'', JString ''Ford'')]] :: string json list"
  have "example_Unmarshal ''nested'' = Inr example_nested"
    "value_at example_nested [Member ''cars''] = Some (JArray ?vs)"
    by (simp_all add: example_defs)
  from array_element_wrappers [where Unmarshal = example_Unmarshal and b = "''nested''"
      and fmt = example_FormatFloat, OF this] obtain s doc n cs where
    s: "parse example_FormatFloat example_Unmarshal ''nested'' = Some (s, Some doc, None)"
      "node_at s doc [Member ''cars''] = Some n" "ChildNodes s n = Some cs"
      "length cs = length ?vs"
    and t: "\<forall>i<length ?vs. Type (s ! (cs ! i)) = ElementNode \<and>
        Data (s ! (cs ! i)) = [] \<and> (?vs ! i = JNull \<longrightarrow> ChildNodes s (cs ! i) = Some [])"
    by blast
  from t [rule_format, of 0] t [rule_format, of 1] have "Type (s ! (cs ! 0)) = ElementNode \<and> Data (s ! (cs ! 0)) = [] \<and>
     ChildNodes s (cs ! 0) = Some [] \<and>
     Type (s ! (cs ! 1)) = ElementNode \<and> Data (s ! (cs ! 1)) = []"
    by simp
  with s show ?thesis
    by auto
qed

end
